theory Spec2Isabelle
  imports Main "HOL-Library.AList"
begin

section \<open>The i18n message catalog of AdoLib (src/i18n/i18n.go)\<close>

subsection \<open>Data model\<close>

text \<open>
  \<^verbatim>\<open>type Message struct { Data string; parseOnce sync.Once; parsedTemplate *gotemplate.Template }\<close>

  The field \<open>parseOnce\<close> holds whether the \<^verbatim>\<open>sync.Once\<close> has fired; \<open>parsedTemplate\<close>
  is \<open>None\<close> for the nil pointer. The type \<open>'t\<close> of compiled templates belongs to the
  text/template library and stays a parameter.
\<close>

record 't Message =
  Data :: string
  parseOnce :: bool
  parsedTemplate :: "'t option"

text \<open>
  \<^verbatim>\<open>iLocalizer = make(map[string]map[string]*Message)\<close>

  A Go map is an association list here, and the order of the list is the order in which
  \<^verbatim>\<open>range\<close> happens to visit the map; the theorems below hold for every order. Keys of a
  Go map are unique, which is \<open>wf_catalog\<close>. Every \<^verbatim>\<open>*Message\<close> in the catalog is a
  fresh \<^verbatim>\<open>&Message{...}\<close> stored under one (locale, id) pair only, so no two entries
  alias and no entry is nil: the pointer is the entry itself.
\<close>

type_synonym 't localizer = "(string \<times> 't Message) list"
type_synonym 't catalog = "(string \<times> 't localizer) list"

definition message_ids :: "'t localizer \<Rightarrow> string set" where
  "message_ids mp = fst ` set mp"

definition wf_catalog :: "'t catalog \<Rightarrow> bool" where
  "wf_catalog cat \<longleftrightarrow>
     distinct (map fst cat) \<and> list_all (\<lambda>(lang, mp). distinct (map fst mp)) cat"

text \<open>
  Every \<^verbatim>\<open>log.Fatalf\<close>, panic and returned error of the package, with the arguments of its
  format string.
\<close>

datatype error =
    LoadLocaleDirFailed string
  | FilenameFormatError string
  | InvalidLanguageTag string
  | LoadLocaleFileFailed string string
  | UnmarshalFailed string string
  | UnsupportedDataFormat
  | EmptyString string
  | AlreadyExist string string string
  | NilMapAssignment
  | MapLengthNotEqual string nat string nat
  | MissingMessageId string string string
  | LocalizerNotExist string
  | MessageIdNotExist string string
  | ParseFailed string string string
  | ExecuteFailed string string string
  | NilTemplate

subsection \<open>checkLanguageMap\<close>

text \<open>
  The loop body of \<^verbatim>\<open>checkLanguageMap\<close> for the locales after the first:
  \<^verbatim>\<open>if len(mp) != len(firstMap) { return fmt.Errorf("%s(%d) map length is not equal to %s(%d)", ...) }\<close>
  \<^verbatim>\<open>for k := range firstMap { if mp[k] == nil { return fmt.Errorf("... missing messageId %s", ...) } }\<close>
\<close>

fun checkOthers :: "string \<Rightarrow> 't localizer \<Rightarrow> 't catalog \<Rightarrow> error option" where
  "checkOthers firstLang firstMap [] = None"
| "checkOthers firstLang firstMap ((lang, mp) # rest) =
     (if length mp \<noteq> length firstMap
      then Some (MapLengthNotEqual lang (length mp) firstLang (length firstMap))
      else (case find (\<lambda>k. map_of mp k = None) (map fst firstMap) of
              Some k \<Rightarrow> Some (MissingMessageId lang firstLang k)
            | None \<Rightarrow> checkOthers firstLang firstMap rest))"

fun checkLanguageMap :: "'t catalog \<Rightarrow> error option" where
  "checkLanguageMap [] = None"
| "checkLanguageMap ((firstLang, firstMap) # rest) = checkOthers firstLang firstMap rest"

subsection \<open>recGetMessages\<close>

text \<open>
  What \<^verbatim>\<open>toml.Unmarshal\<close> stores into \<^verbatim>\<open>raw interface{}\<close>: a string, a
  \<^verbatim>\<open>map[string]interface{}\<close>, or a value of any other type (integer, float, boolean,
  date, array). The entries of a table are listed in the order \<^verbatim>\<open>range\<close> visits them.
\<close>

datatype raw = Str string | Table "(string \<times> raw) list" | Other

text \<open>
  \<^verbatim>\<open>recGetMessages(lang, messageId, raw)\<close> on the global \<^verbatim>\<open>iLocalizer\<close>, passed in and
  returned. \<^verbatim>\<open>log.Fatalf\<close> ends the process, so it is an error result like the returned
  \<^verbatim>\<open>fmt.Errorf\<close>. Reading \<^verbatim>\<open>iLocalizer[lang][messageId]\<close> for a locale without a table
  reads a nil map and finds nothing; the assignment to it then panics.
  \<open>rangeData\<close> is the loop \<^verbatim>\<open>for k, v := range data\<close>.
\<close>

fun recGetMessages :: "string \<Rightarrow> string \<Rightarrow> raw \<Rightarrow> 't catalog \<Rightarrow> error + 't catalog"
  and rangeData :: "string \<Rightarrow> string \<Rightarrow> (string \<times> raw) list \<Rightarrow> 't catalog \<Rightarrow> error + 't catalog"
  where
  "recGetMessages lang messageId (Str data) cat =
     (if data = [] then Inl (EmptyString messageId)
      else (case map_of cat lang of
              None \<Rightarrow> Inl NilMapAssignment
            | Some mp \<Rightarrow>
                (case map_of mp messageId of
                   Some oldMessage \<Rightarrow> Inl (AlreadyExist messageId (Data oldMessage) data)
                 | None \<Rightarrow>
                     Inr (AList.update lang
                            (AList.update messageId
                               \<lparr>Data = data, parseOnce = False, parsedTemplate = None\<rparr> mp)
                            cat))))"
| "recGetMessages lang messageId (Table data) cat = rangeData lang messageId data cat"
| "recGetMessages lang messageId Other cat = Inl UnsupportedDataFormat"
| "rangeData lang messageId [] cat = Inr cat"
| "rangeData lang messageId ((k, v) # rest) cat =
     (case recGetMessages lang (if messageId \<noteq> [] then messageId @ ''.'' @ k else k) v cat of
        Inl e \<Rightarrow> Inl e
      | Inr cat' \<Rightarrow> rangeData lang messageId rest cat')"

subsection \<open>RegisterI18n\<close>

text \<open>\<^verbatim>\<open>strings.Split(name, ".")\<close>: the segments between the separators, one more than
  there are separators (so \<^verbatim>\<open>[""]\<close> for the empty string).\<close>

fun strings_Split :: "string \<Rightarrow> char \<Rightarrow> string list" where
  "strings_Split [] sep = [[]]"
| "strings_Split (c # cs) sep =
     (if c = sep then [] # strings_Split cs sep
      else (case strings_Split cs sep of
              [] \<Rightarrow> [[c]]
            | seg # segs \<Rightarrow> (c # seg) # segs))"

text \<open>
  The file system and the TOML parser are outside the package. A directory entry is its
  name with what \<^verbatim>\<open>os.ReadFile\<close> and \<^verbatim>\<open>toml.Unmarshal\<close> make of it; \<^verbatim>\<open>os.ReadDir\<close>
  gives the entries or fails (\<open>None\<close>). \<open>validTag\<close> tells for which strings
  \<^verbatim>\<open>language.MustParse\<close> returns instead of panicking.
\<close>

datatype fileContent = ReadFileError | UnmarshalError | Document raw

type_synonym dirEntry = "string \<times> fileContent"

text \<open>
  The loop \<^verbatim>\<open>for _, fileInfos := range fileInfos\<close> of \<^verbatim>\<open>RegisterI18n\<close>. The file is read
  under \<^verbatim>\<open>filename := path.Join(localeDir, fileInfos.Name())\<close>, and the two errors that
  print \<^verbatim>\<open>filename\<close> carry the two arguments of \<^verbatim>\<open>path.Join\<close>.
\<close>

fun loadFiles ::
  "(string \<Rightarrow> bool) \<Rightarrow> string \<Rightarrow> dirEntry list \<Rightarrow> 't catalog \<Rightarrow> error + 't catalog" where
  "loadFiles validTag localeDir [] cat = Inr cat"
| "loadFiles validTag localeDir ((name, content) # rest) cat =
     (let s = strings_Split name (CHR ''.'') in
      if length s = 2 \<and> s ! 1 = ''go'' then loadFiles validTag localeDir rest cat
      else if length s \<noteq> 3 \<or> s ! 2 \<noteq> ''toml'' then Inl (FilenameFormatError name)
      else
        let lang = s ! 1 in
        if \<not> validTag lang then Inl (InvalidLanguageTag lang)
        else
          let cat1 = (if map_of cat lang = None then AList.update lang [] cat else cat) in
          (case content of
             ReadFileError \<Rightarrow> Inl (LoadLocaleFileFailed localeDir name)
           | UnmarshalError \<Rightarrow> Inl (UnmarshalFailed localeDir name)
           | Document doc \<Rightarrow>
               (case recGetMessages lang [] doc cat1 of
                  Inl e \<Rightarrow> Inl e
                | Inr cat2 \<Rightarrow> loadFiles validTag localeDir rest cat2)))"

text \<open>
  \<^verbatim>\<open>RegisterI18n(localeDir)\<close>: read the directory, load every file, validate. The list
  that the loop leaves holds the locales in the order in which their tables were made, and
  \<open>RegisterI18n\<close> is the run in which \<^verbatim>\<open>range iLocalizer\<close> of the validation visits them
  in that order. Go fixes no order: in another run the validation is \<open>checkLanguageMap\<close>
  of another list with the same entries. It then fails or succeeds alike
  (\<open>checkLanguageMap_order\<close>, \<open>RegisterI18n_order\<close>), but it may blame another locale, so
  the statements below use \<open>RegisterI18n\<close> where it succeeds and speak of the errors of the
  validation on \<open>checkLanguageMap\<close>, for every order of the list.
\<close>

definition RegisterI18n ::
  "(string \<Rightarrow> bool) \<Rightarrow> string \<Rightarrow> dirEntry list option \<Rightarrow> 't catalog \<Rightarrow> error + 't catalog" where
  "RegisterI18n validTag localeDir readDir cat =
     (case readDir of
        None \<Rightarrow> Inl (LoadLocaleDirFailed localeDir)
      | Some fileInfos \<Rightarrow>
          (case loadFiles validTag localeDir fileInfos cat of
             Inl e \<Rightarrow> Inl e
           | Inr cat' \<Rightarrow>
               (case checkLanguageMap cat' of
                  Some e \<Rightarrow> Inl e
                | None \<Rightarrow> Inr cat')))"

subsection \<open>Translate\<close>

text \<open>\<^verbatim>\<open>strings.Contains(s, substr)\<close>.\<close>

fun strings_Contains :: "string \<Rightarrow> string \<Rightarrow> bool" where
  "strings_Contains [] substr = (substr = [])"
| "strings_Contains (c # cs) substr =
     (take (length substr) (c # cs) = substr \<or> strings_Contains cs substr)"

definition leftDelim :: string where
  "leftDelim = ''{{''"

text \<open>
  \<^verbatim>\<open>message.parseOnce.Do(func() { message.parsedTemplate, err = gotemplate.New("").Parse(message.Data); ... })\<close>

  The function runs only if the \<^verbatim>\<open>sync.Once\<close> has not fired. \<open>parse\<close> stands for
  \<^verbatim>\<open>gotemplate.New("").Parse\<close>: \<open>None\<close> is a returned error, on which the closure calls
  \<^verbatim>\<open>log.Fatalf\<close>.
\<close>

definition parseOnce_Do ::
  "(string \<Rightarrow> 't option) \<Rightarrow> string \<Rightarrow> string \<Rightarrow> 't Message \<Rightarrow> error + 't Message" where
  "parseOnce_Do parse lang messageId message =
     (if parseOnce message then Inr message
      else (case parse (Data message) of
              None \<Rightarrow> Inl (ParseFailed messageId lang (Data message))
            | Some t \<Rightarrow> Inr (message\<lparr>parsedTemplate := Some t, parseOnce := True\<rparr>)))"

text \<open>
  \<^verbatim>\<open>Translate(lang, messageId, templateDate)\<close> on the global \<^verbatim>\<open>iLocalizer\<close>: the result is
  the fatal error, or the returned string with the catalog as the call leaves it.
  \<open>execute\<close> stands for \<^verbatim>\<open>(*Template).Execute\<close> writing into a fresh buffer: \<open>None\<close> is
  a returned error. Calling it on the nil template panics. The type \<open>'d\<close> of the template
  data is left open.
\<close>

definition Translate ::
  "(string \<Rightarrow> 't option) \<Rightarrow> ('t \<Rightarrow> 'd \<Rightarrow> string option) \<Rightarrow>
   't catalog \<Rightarrow> string \<Rightarrow> string \<Rightarrow> 'd \<Rightarrow> error + (string \<times> 't catalog)" where
  "Translate parse execute cat lang messageId templateDate =
     (case map_of cat lang of
        None \<Rightarrow> Inl (LocalizerNotExist lang)
      | Some localizer \<Rightarrow>
          (case map_of localizer messageId of
             None \<Rightarrow> Inl (MessageIdNotExist messageId lang)
           | Some message \<Rightarrow>
               if \<not> strings_Contains (Data message) leftDelim then Inr (Data message, cat)
               else
                 (case parseOnce_Do parse lang messageId message of
                    Inl e \<Rightarrow> Inl e
                  | Inr message' \<Rightarrow>
                      (case parsedTemplate message' of
                         None \<Rightarrow> Inl NilTemplate
                       | Some t \<Rightarrow>
                           (case execute t templateDate of
                              None \<Rightarrow> Inl (ExecuteFailed messageId lang (Data message))
                            | Some out \<Rightarrow>
                                Inr (out,
                                     AList.update lang
                                       (AList.update messageId message' localizer) cat))))))"

text \<open>A run of calls, one after the other, each \<open>(lang, messageId, templateDate)\<close>; the
  first fatal error ends the process.\<close>

fun TranslateAll ::
  "(string \<Rightarrow> 't option) \<Rightarrow> ('t \<Rightarrow> 'd \<Rightarrow> string option) \<Rightarrow>
   't catalog \<Rightarrow> (string \<times> string \<times> 'd) list \<Rightarrow> error + (string list \<times> 't catalog)" where
  "TranslateAll parse execute cat [] = Inr ([], cat)"
| "TranslateAll parse execute cat ((lang, messageId, templateDate) # calls) =
     (case Translate parse execute cat lang messageId templateDate of
        Inl e \<Rightarrow> Inl e
      | Inr (out, cat') \<Rightarrow>
          (case TranslateAll parse execute cat' calls of
             Inl e \<Rightarrow> Inl e
           | Inr (outs, cat'') \<Rightarrow> Inr (out # outs, cat'')))"

definition lookup :: "'t catalog \<Rightarrow> string \<Rightarrow> string \<Rightarrow> 't Message option" where
  "lookup cat lang messageId =
     (case map_of cat lang of None \<Rightarrow> None | Some localizer \<Rightarrow> map_of localizer messageId)"

subsection \<open>The template engine\<close>

text \<open>
  \<^verbatim>\<open>text/template\<close> is Go's standard library, not part of the repository, so \<open>Translate\<close>
  takes it as the parameters \<open>parse\<close> and \<open>execute\<close> and the theorems on \<open>Translate\<close> hold
  for every engine. Where a statement needs what the engine prints, it is about the
  templates made of literal text and actions \<^verbatim>\<open>{{.Key}}\<close>, one field of the data with
  spaces allowed around it, and about what the library's documentation and its lexer
  (\<^verbatim>\<open>text/template/parse/lex.go\<close>) say of them, with the options that \<open>Translate\<close> leaves
  at their defaults:
  \<^item> the text outside the actions is copied;
  \<^item> inside an action, a dot followed by a digit starts a number and not a field, so
    \<^verbatim>\<open>{{.1}}\<close> is not of this kind; a field name is a run of letters, digits and
    underscores, and here of ASCII ones; after the name only spaces and the closing
    \<^verbatim>\<open>}}\<close> may follow;
  \<^item> \<^verbatim>\<open>{{.Key}}\<close> on a \<^verbatim>\<open>map[string]interface{}\<close> indexes the map; a present value is
    printed as \<^verbatim>\<open>fmt.Fprint\<close> prints it, and under the default option
    \<^verbatim>\<open>missingkey=default\<close> the documentation of \<^verbatim>\<open>(*Template).Option\<close> says of a key
    that the map lacks: ``If printed, the result of the index operation is the string
    \<^verbatim>\<open><no value>\<close>'';
  \<^item> a nil map is indexed like the empty map.
  The data is the map from each key to the printed form of its value.

  \<open>lexParse\<close> reads such a template: \<open>Some\<close> of its nodes for a source of this kind and
  \<open>None\<close> for every other source, whether the library rejects it (an action that is not
  closed) or accepts it (\<^verbatim>\<open>{{.}}\<close>, \<^verbatim>\<open>{{.A.B}}\<close>, pipelines, numbers). So
  \<open>gotemplate_Parse\<close> and \<open>gotemplate_Execute\<close> are the library on the sources where
  \<open>gotemplate_Parse\<close> is \<open>Some\<close> and do not stand for it elsewhere. An engine, the library
  for one, is \<open>as_documented\<close> when on every such source it compiles and then prints what
  \<open>printNodes\<close> prints; nothing is asked of it on the other sources.
\<close>

datatype node = TextNode string | FieldNode string

datatype lexState = LexText | LexInsideAction | LexField | LexRightDelim

definition isAlphaNumeric :: "char \<Rightarrow> bool" where
  "isAlphaNumeric c \<longleftrightarrow>
     c \<in> set ''_abcdefghijklmnopqrstuvwxyzABCDEFGHIJKLMNOPQRSTUVWXYZ0123456789''"

definition textNode :: "string \<Rightarrow> node list" where
  "textNode acc = (if acc = [] then [] else [TextNode acc])"

fun lexParse :: "lexState \<Rightarrow> string \<Rightarrow> string \<Rightarrow> node list option" where
  "lexParse LexText acc [] = Some (textNode acc)"
| "lexParse LexText acc [c] = Some (textNode (acc @ [c]))"
| "lexParse LexText acc (c # c' # cs) =
     (if c = CHR ''{'' \<and> c' = CHR ''{''
      then map_option (\<lambda>ns. textNode acc @ ns) (lexParse LexInsideAction [] cs)
      else lexParse LexText (acc @ [c]) (c' # cs))"
| "lexParse LexInsideAction acc [] = None"
| "lexParse LexInsideAction acc (c # cs) =
     (if c = CHR '' '' then lexParse LexInsideAction acc cs
      else if c = CHR ''.'' \<and> cs \<noteq> [] \<and> hd cs \<notin> set ''0123456789''
      then lexParse LexField [] cs
      else None)"
| "lexParse LexField acc [] = None"
| "lexParse LexField acc (c # cs) =
     (if isAlphaNumeric c then lexParse LexField (acc @ [c]) cs
      else if acc = [] then None
      else map_option (\<lambda>ns. FieldNode acc # ns) (lexParse LexRightDelim [] (c # cs)))"
| "lexParse LexRightDelim acc [] = None"
| "lexParse LexRightDelim acc [c] = None"
| "lexParse LexRightDelim acc (c # c' # cs) =
     (if c = CHR '' '' then lexParse LexRightDelim acc (c' # cs)
      else if c = CHR ''}'' \<and> c' = CHR ''}'' then lexParse LexText [] cs
      else None)"

definition gotemplate_Parse :: "string \<Rightarrow> node list option" where
  "gotemplate_Parse text = lexParse LexText [] text"

fun printNodes :: "node list \<Rightarrow> (string \<rightharpoonup> string) \<Rightarrow> string" where
  "printNodes [] data = []"
| "printNodes (TextNode text # ns) data = text @ printNodes ns data"
| "printNodes (FieldNode key # ns) data =
     (case data key of None \<Rightarrow> ''<no value>'' | Some v \<Rightarrow> v) @ printNodes ns data"

definition gotemplate_Execute :: "node list \<Rightarrow> (string \<rightharpoonup> string) \<Rightarrow> string option" where
  "gotemplate_Execute t data = Some (printNodes t data)"


subsection \<open>Properties of a catalog\<close>

text \<open>
  The slot of a message is in order when \<^verbatim>\<open>parsedTemplate\<close> is nil exactly as long as
  \<^verbatim>\<open>parseOnce\<close> has not fired, and is the template compiled from \<^verbatim>\<open>Data\<close> afterwards.
\<close>

definition slot_ok :: "(string \<Rightarrow> 't option) \<Rightarrow> 't Message \<Rightarrow> bool" where
  "slot_ok parse m \<longleftrightarrow>
     (if parseOnce m then parsedTemplate m \<noteq> None \<and> parsedTemplate m = parse (Data m)
      else parsedTemplate m = None)"

definition catalog_ok :: "(string \<Rightarrow> 't option) \<Rightarrow> 't catalog \<Rightarrow> bool" where
  "catalog_ok parse cat \<longleftrightarrow>
     list_all (\<lambda>(lang, mp). list_all (\<lambda>(k, m). slot_ok parse m) mp) cat"

text \<open>
  \<open>catalog_kept cat cat'\<close>: \<open>cat'\<close> has the locales and the message ids of \<open>cat\<close>, in the
  same order and with the same \<^verbatim>\<open>Data\<close>, and every template compiled in \<open>cat\<close> is still
  the template of its message in \<open>cat'\<close>.
\<close>

definition message_kept :: "(string \<times> 't Message) \<Rightarrow> (string \<times> 't Message) \<Rightarrow> bool" where
  "message_kept e e' \<longleftrightarrow>
     fst e' = fst e \<and> Data (snd e') = Data (snd e) \<and>
     (parsedTemplate (snd e) = None \<or> parsedTemplate (snd e') = parsedTemplate (snd e))"

definition localizer_kept :: "(string \<times> 't localizer) \<Rightarrow> (string \<times> 't localizer) \<Rightarrow> bool" where
  "localizer_kept l l' \<longleftrightarrow> fst l' = fst l \<and> list_all2 message_kept (snd l) (snd l')"

definition catalog_kept :: "'t catalog \<Rightarrow> 't catalog \<Rightarrow> bool" where
  "catalog_kept cat cat' \<longleftrightarrow> list_all2 localizer_kept cat cat'"

text \<open>
  \<^verbatim>\<open>&Message{Data: data}\<close>
\<close>

abbreviation newMessage :: "string \<Rightarrow> 't Message" where
  "newMessage data \<equiv> \<lparr>Data = data, parseOnce = False, parsedTemplate = None\<rparr>"

subsection \<open>What a document holds\<close>

text \<open>
  The string leaves of a document with the message ids that \<open>recGetMessages\<close> gives them,
  in the order of the visit, and whether the document holds strings and tables only.
  Both are stated on the document alone, with no catalog and no error.
\<close>

fun flatten :: "string \<Rightarrow> raw \<Rightarrow> (string \<times> string) list"
  and flattenEntries :: "string \<Rightarrow> (string \<times> raw) list \<Rightarrow> (string \<times> string) list" where
  "flatten messageId (Str data) = [(messageId, data)]"
| "flatten messageId (Table data) = flattenEntries messageId data"
| "flatten messageId Other = []"
| "flattenEntries messageId [] = []"
| "flattenEntries messageId ((k, v) # rest) =
     flatten (if messageId \<noteq> [] then messageId @ ''.'' @ k else k) v @ flattenEntries messageId rest"

fun supported :: "raw \<Rightarrow> bool" and supportedEntries :: "(string \<times> raw) list \<Rightarrow> bool" where
  "supported (Str data) = True"
| "supported (Table data) = supportedEntries data"
| "supported Other = False"
| "supportedEntries [] = True"
| "supportedEntries ((k, v) # rest) = (supported v \<and> supportedEntries rest)"

text \<open>
  The messages made from a list of leaves, and when a table of messages can take them
  all: no leaf is empty and no id is there twice or in the table already.
\<close>

definition newEntries :: "(string \<times> string) list \<Rightarrow> 't localizer" where
  "newEntries kds = map (\<lambda>(k, d). (k, newMessage d)) kds"

definition addable :: "'t localizer \<Rightarrow> (string \<times> string) list \<Rightarrow> bool" where
  "addable mp kds \<longleftrightarrow>
     list_all (\<lambda>(k, d). d \<noteq> []) kds \<and> distinct (map fst kds) \<and>
     list_all (\<lambda>(k, d). map_of mp k = None) kds"

text \<open>
  The file names of a locale directory: \<^verbatim>\<open><base>.go\<close> is skipped and
  \<^verbatim>\<open><module>.<lang>.toml\<close> is loaded. No part holds a dot.
\<close>

definition sourceFileName :: "string \<Rightarrow> bool" where
  "sourceFileName name \<longleftrightarrow> (\<exists>base. name = base @ ''.go'' \<and> CHR ''.'' \<notin> set base)"

definition localeFileName :: "string \<Rightarrow> string \<Rightarrow> string \<Rightarrow> bool" where
  "localeFileName name module lang \<longleftrightarrow>
     name = module @ ''.'' @ lang @ ''.toml'' \<and> CHR ''.'' \<notin> set module \<and> CHR ''.'' \<notin> set lang"

text \<open>
  The segments of a path joined by a separator, as \<^verbatim>\<open>strings.Join\<close> does.
\<close>

fun joinSegments :: "char \<Rightarrow> string list \<Rightarrow> string" where
  "joinSegments sep [] = []"
| "joinSegments sep [seg] = seg"
| "joinSegments sep (seg # segs) = seg @ sep # joinSegments sep segs"

text \<open>
  The catalog as loading leaves it: keys are unique, no \<^verbatim>\<open>Data\<close> is empty and no message
  has been compiled.
\<close>

definition newly_loaded :: "'t catalog \<Rightarrow> bool" where
  "newly_loaded cat \<longleftrightarrow>
     wf_catalog cat \<and>
     list_all (\<lambda>(lang, mp).
       list_all (\<lambda>(k, m). Data m \<noteq> [] \<and> \<not> parseOnce m \<and> parsedTemplate m = None) mp) cat"

text \<open>
  The locale that a file name stands for, the pairs of locale and message id that the
  files of a directory define, and the pairs that a catalog holds. \<open>ensureTable\<close> is
  \<^verbatim>\<open>if iLocalizer[lang] == nil { iLocalizer[lang] = make(map[string]*Message) }\<close>.
\<close>

definition fileLang :: "string \<Rightarrow> string option" where
  "fileLang name =
     (let s = strings_Split name (CHR ''.'') in
      if length s = 3 \<and> s ! 2 = ''toml'' then Some (s ! 1) else None)"

fun fileIds :: "dirEntry \<Rightarrow> (string \<times> string) list" where
  "fileIds (name, Document doc) =
     (case fileLang name of
        Some lang \<Rightarrow> map (\<lambda>(k, d). (lang, k)) (flatten [] doc)
      | None \<Rightarrow> [])"
| "fileIds (name, content) = []"

definition allIds :: "dirEntry list \<Rightarrow> (string \<times> string) list" where
  "allIds fileInfos = concat (map fileIds fileInfos)"

definition ensureTable :: "string \<Rightarrow> 't catalog \<Rightarrow> 't catalog" where
  "ensureTable lang cat = (if map_of cat lang = None then AList.update lang [] cat else cat)"

definition idSet :: "'t catalog \<Rightarrow> (string \<times> string) set" where
  "idSet cat = {(lang, k). lookup cat lang k \<noteq> None}"

text \<open>
  A file fails on its own when its name is neither skipped nor well formed, its locale
  tag is invalid, it cannot be read or decoded, or its document holds an unsupported
  value or an empty string. A directory is \<open>loadable\<close> into a catalog when no file fails
  on its own and no pair of locale and message id is defined twice, by the files or by
  the catalog.
\<close>

fun fileFails :: "(string \<Rightarrow> bool) \<Rightarrow> dirEntry \<Rightarrow> bool" where
  "fileFails validTag (name, content) =
     (\<not> sourceFileName name \<and>
      (case fileLang name of
         None \<Rightarrow> True
       | Some lang \<Rightarrow>
           \<not> validTag lang \<or>
           (case content of
              ReadFileError \<Rightarrow> True
            | UnmarshalError \<Rightarrow> True
            | Document doc \<Rightarrow>
                \<not> supported doc \<or> \<not> list_all (\<lambda>(k, d). d \<noteq> []) (flatten [] doc))))"

definition loadable :: "(string \<Rightarrow> bool) \<Rightarrow> 't catalog \<Rightarrow> dirEntry list \<Rightarrow> bool" where
  "loadable validTag cat fileInfos \<longleftrightarrow>
     list_all (\<lambda>e. \<not> fileFails validTag e) fileInfos \<and> distinct (allIds fileInfos) \<and>
     (\<forall>i \<in> set (allIds fileInfos). i \<notin> idSet cat)"

text \<open>
  \<open>leafAt ks v s\<close>: following the keys \<open>ks\<close> from the value \<open>v\<close> leads to the string \<open>s\<close>.
  \<open>pathId messageId ks\<close> is the message id that \<open>recGetMessages\<close> has built after
  descending along \<open>ks\<close> from the id \<open>messageId\<close>.
\<close>

fun leafAt :: "string list \<Rightarrow> raw \<Rightarrow> string \<Rightarrow> bool" where
  "leafAt [] v s = (v = Str s)"
| "leafAt (k # ks) v s =
     (case v of
        Table data \<Rightarrow> list_ex (\<lambda>(k', v'). k' = k \<and> leafAt ks v' s) data
      | _ \<Rightarrow> False)"

fun pathId :: "string \<Rightarrow> string list \<Rightarrow> string" where
  "pathId messageId [] = messageId"
| "pathId messageId (k # ks) = pathId (if messageId \<noteq> [] then messageId @ ''.'' @ k else k) ks"

text \<open>
  The errors that loading may report: for the leaves \<open>F\<close> of one document added to a table
  \<open>mp\<close>, for one file, and for an id defined twice.
\<close>

fun leafError :: "'t localizer \<Rightarrow> (string \<times> string) list \<Rightarrow> bool \<Rightarrow> error \<Rightarrow> bool" where
  "leafError mp F ok UnsupportedDataFormat = (\<not> ok)"
| "leafError mp F ok (EmptyString k) = ((k, []) \<in> set F)"
| "leafError mp F ok (AlreadyExist k old new) =
     ((k, new) \<in> set F \<and> ((\<exists>m. map_of mp k = Some m \<and> Data m = old) \<or> (k, old) \<in> set F))"
| "leafError mp F ok err = False"

fun fileError :: "(string \<Rightarrow> bool) \<Rightarrow> string \<Rightarrow> dirEntry \<Rightarrow> error \<Rightarrow> bool" where
  "fileError validTag localeDir (name, content) err =
     (\<not> sourceFileName name \<and>
      (case fileLang name of
         None \<Rightarrow> err = FilenameFormatError name
       | Some lang \<Rightarrow>
           if \<not> validTag lang then err = InvalidLanguageTag lang
           else (case content of
                   ReadFileError \<Rightarrow> err = LoadLocaleFileFailed localeDir name
                 | UnmarshalError \<Rightarrow> err = UnmarshalFailed localeDir name
                 | Document doc \<Rightarrow>
                     (err = UnsupportedDataFormat \<and> \<not> supported doc) \<or>
                     (\<exists>k. err = EmptyString k \<and> (k, []) \<in> set (flatten [] doc)))))"

definition duplicateError :: "'t catalog \<Rightarrow> dirEntry list \<Rightarrow> error \<Rightarrow> bool" where
  "duplicateError cat fileInfos err \<longleftrightarrow>
     (\<exists>k old new lang name doc.
        err = AlreadyExist k old new \<and> (name, Document doc) \<in> set fileInfos \<and>
        fileLang name = Some lang \<and> (k, new) \<in> set (flatten [] doc) \<and>
        ((\<exists>m. lookup cat lang k = Some m \<and> Data m = old) \<or>
         (\<exists>name' doc'. (name', Document doc') \<in> set fileInfos \<and> fileLang name' = Some lang \<and>
                        (k, old) \<in> set (flatten [] doc'))))"

text \<open>
  The first conflict among the leaves \<open>F\<close> of a document that is added to the table \<open>mp\<close>:
  the leaves \<open>F1\<close> before it can all be added, and the table with them holds a message
  with the id \<open>k\<close> of the conflicting leaf, whose raw content is \<open>old\<close>.
\<close>

definition firstConflict ::
  "'t localizer \<Rightarrow> (string \<times> string) list \<Rightarrow> string \<Rightarrow> string \<Rightarrow> string \<Rightarrow> bool" where
  "firstConflict mp F k old new \<longleftrightarrow>
     (\<exists>F1 F2 m. F = F1 @ (k, new) # F2 \<and> addable mp F1 \<and>
        map_of (mp @ newEntries F1) k = Some m \<and> Data m = old)"

text \<open>
  The conditions under which loading is said to fail, each as a property of the directory:
  a file name that is neither \<^verbatim>\<open><base>.go\<close> nor \<^verbatim>\<open><module>.<lang>.toml\<close>, an invalid locale
  tag, a file that cannot be read, a file that cannot be decoded, a value that is neither a
  string nor a table, an empty string, and a message id defined twice for one locale.
\<close>

definition fileTriggers :: "(string \<Rightarrow> bool) \<Rightarrow> dirEntry list \<Rightarrow> bool" where
  "fileTriggers validTag fileInfos \<longleftrightarrow>
     (\<exists>name content. (name, content) \<in> set fileInfos \<and> \<not> sourceFileName name \<and>
        (\<forall>module lang. \<not> localeFileName name module lang)) \<or>
     (\<exists>name content module lang. (name, content) \<in> set fileInfos \<and>
        localeFileName name module lang \<and> \<not> validTag lang) \<or>
     (\<exists>name module lang. (name, ReadFileError) \<in> set fileInfos \<and> localeFileName name module lang) \<or>
     (\<exists>name module lang. (name, UnmarshalError) \<in> set fileInfos \<and> localeFileName name module lang) \<or>
     (\<exists>name module lang doc. (name, Document doc) \<in> set fileInfos \<and>
        localeFileName name module lang \<and> \<not> supported doc) \<or>
     (\<exists>name module lang doc k. (name, Document doc) \<in> set fileInfos \<and>
        localeFileName name module lang \<and> (k, []) \<in> set (flatten [] doc))"

definition loadTriggers :: "(string \<Rightarrow> bool) \<Rightarrow> dirEntry list \<Rightarrow> bool" where
  "loadTriggers validTag fileInfos \<longleftrightarrow>
     fileTriggers validTag fileInfos \<or> \<not> distinct (allIds fileInfos)"

text \<open>
  No message of the catalog has an empty \<^verbatim>\<open>Data\<close>.
\<close>

definition all_nonempty :: "'t catalog \<Rightarrow> bool" where
  "all_nonempty cat \<longleftrightarrow> list_all (\<lambda>(lang, mp). list_all (\<lambda>(k, m). Data m \<noteq> []) mp) cat"

subsection \<open>Concurrent calls of Translate\<close>

text \<open>
  \<^verbatim>\<open>Translate\<close> may be called from several goroutines at once. The only state they share
  and write is the \<^verbatim>\<open>parseOnce\<close> and the \<^verbatim>\<open>parsedTemplate\<close> of a message, and both are
  written inside \<^verbatim>\<open>parseOnce.Do\<close> only. A goroutine is at one of these points of the body
  of \<^verbatim>\<open>Translate\<close>, with the arguments of its call:
  \<^item> \<open>Call\<close>: at the entry;
  \<^item> \<open>AtDo\<close>: past the test of \<^verbatim>\<open>strings.Contains\<close>, calling \<^verbatim>\<open>message.parseOnce.Do\<close>;
  \<^item> \<open>InDo\<close>: inside the function handed to \<^verbatim>\<open>Do\<close>;
  \<^item> \<open>AtExecute\<close>: \<^verbatim>\<open>Do\<close> has returned, \<^verbatim>\<open>Execute\<close> is next;
  \<^item> \<open>Returned\<close>: the call has returned this string.
\<close>

datatype 'd goroutine =
    Call string string 'd
  | AtDo string string 'd
  | InDo string string 'd
  | AtExecute string string 'd
  | Returned string

text \<open>
  The process: the global \<^verbatim>\<open>iLocalizer\<close>; for each message the goroutine that runs the
  function of its \<^verbatim>\<open>sync.Once\<close>, if one does (\<open>holder\<close>); the goroutines; and whether
  \<^verbatim>\<open>log.Fatalf\<close> has ended the process, with which error. \<open>compiled\<close> is not state of the
  program: it is the history of the calls of \<^verbatim>\<open>gotemplate.New("").Parse\<close>, one entry for
  each call that has returned, in the order of the calls.
\<close>

record ('t, 'd) process =
  iLocalizer :: "'t catalog"
  holder :: "string \<times> string \<Rightarrow> nat option"
  goroutines :: "'d goroutine list"
  compiled :: "(string \<times> string) list"
  exited :: "error option"

text \<open>
  One step of one goroutine \<open>n\<close>, chosen freely among those that can move; a run is any
  sequence of steps. After \<^verbatim>\<open>log.Fatalf\<close> nothing moves. \<^verbatim>\<open>sync.Once\<close> is Go's standard
  library, and the steps \<open>once_done\<close> and \<open>once_enter\<close> follow its documentation:
  \<^verbatim>\<open>Do\<close> returns at once when an earlier call of \<^verbatim>\<open>Do\<close> on this \<^verbatim>\<open>Once\<close> has returned,
  runs the function when no call has been made, and otherwise waits (no step) until the
  running call returns. The function itself is \<open>parse_failed\<close> or \<open>parse_ok\<close>: on an error
  of \<^verbatim>\<open>Parse\<close> the process ends inside the function; otherwise the template is stored, the
  function returns and so does \<^verbatim>\<open>Do\<close>.
\<close>

inductive step ::
  "(string \<Rightarrow> 't option) \<Rightarrow> ('t \<Rightarrow> 'd \<Rightarrow> string option) \<Rightarrow>
   ('t, 'd) process \<Rightarrow> ('t, 'd) process \<Rightarrow> bool"
  for parse :: "string \<Rightarrow> 't option" and execute :: "'t \<Rightarrow> 'd \<Rightarrow> string option" where
  no_localizer:
    "exited s = None \<Longrightarrow> n < length (goroutines s) \<Longrightarrow>
     goroutines s ! n = Call lang messageId d \<Longrightarrow>
     map_of (iLocalizer s) lang = None \<Longrightarrow>
     step parse execute s (s\<lparr>exited := Some (LocalizerNotExist lang)\<rparr>)"
| no_message:
    "exited s = None \<Longrightarrow> n < length (goroutines s) \<Longrightarrow>
     goroutines s ! n = Call lang messageId d \<Longrightarrow>
     map_of (iLocalizer s) lang = Some localizer \<Longrightarrow> map_of localizer messageId = None \<Longrightarrow>
     step parse execute s (s\<lparr>exited := Some (MessageIdNotExist messageId lang)\<rparr>)"
| fast_path:
    "exited s = None \<Longrightarrow> n < length (goroutines s) \<Longrightarrow>
     goroutines s ! n = Call lang messageId d \<Longrightarrow>
     lookup (iLocalizer s) lang messageId = Some message \<Longrightarrow>
     \<not> strings_Contains (Data message) leftDelim \<Longrightarrow>
     step parse execute s (s\<lparr>goroutines := (goroutines s)[n := Returned (Data message)]\<rparr>)"
| slow_path:
    "exited s = None \<Longrightarrow> n < length (goroutines s) \<Longrightarrow>
     goroutines s ! n = Call lang messageId d \<Longrightarrow>
     lookup (iLocalizer s) lang messageId = Some message \<Longrightarrow>
     strings_Contains (Data message) leftDelim \<Longrightarrow>
     step parse execute s (s\<lparr>goroutines := (goroutines s)[n := AtDo lang messageId d]\<rparr>)"
| once_done:
    "exited s = None \<Longrightarrow> n < length (goroutines s) \<Longrightarrow>
     goroutines s ! n = AtDo lang messageId d \<Longrightarrow>
     lookup (iLocalizer s) lang messageId = Some message \<Longrightarrow> parseOnce message \<Longrightarrow>
     step parse execute s (s\<lparr>goroutines := (goroutines s)[n := AtExecute lang messageId d]\<rparr>)"
| once_enter:
    "exited s = None \<Longrightarrow> n < length (goroutines s) \<Longrightarrow>
     goroutines s ! n = AtDo lang messageId d \<Longrightarrow>
     lookup (iLocalizer s) lang messageId = Some message \<Longrightarrow> \<not> parseOnce message \<Longrightarrow>
     holder s (lang, messageId) = None \<Longrightarrow>
     step parse execute s
       (s\<lparr>holder := (holder s)((lang, messageId) \<mapsto> n),
          goroutines := (goroutines s)[n := InDo lang messageId d]\<rparr>)"
| parse_failed:
    "exited s = None \<Longrightarrow> n < length (goroutines s) \<Longrightarrow>
     goroutines s ! n = InDo lang messageId d \<Longrightarrow>
     lookup (iLocalizer s) lang messageId = Some message \<Longrightarrow>
     parse (Data message) = None \<Longrightarrow>
     step parse execute s
       (s\<lparr>compiled := compiled s @ [(lang, messageId)],
          exited := Some (ParseFailed messageId lang (Data message))\<rparr>)"
| parse_ok:
    "exited s = None \<Longrightarrow> n < length (goroutines s) \<Longrightarrow>
     goroutines s ! n = InDo lang messageId d \<Longrightarrow>
     map_of (iLocalizer s) lang = Some localizer \<Longrightarrow>
     map_of localizer messageId = Some message \<Longrightarrow>
     parse (Data message) = Some t \<Longrightarrow>
     step parse execute s
       (s\<lparr>iLocalizer :=
            AList.update lang
              (AList.update messageId (message\<lparr>parsedTemplate := Some t, parseOnce := True\<rparr>)
                 localizer)
              (iLocalizer s),
          holder := (holder s)((lang, messageId) := None),
          goroutines := (goroutines s)[n := AtExecute lang messageId d],
          compiled := compiled s @ [(lang, messageId)]\<rparr>)"
| nil_template:
    "exited s = None \<Longrightarrow> n < length (goroutines s) \<Longrightarrow>
     goroutines s ! n = AtExecute lang messageId d \<Longrightarrow>
     lookup (iLocalizer s) lang messageId = Some message \<Longrightarrow>
     parsedTemplate message = None \<Longrightarrow>
     step parse execute s (s\<lparr>exited := Some NilTemplate\<rparr>)"
| execute_failed:
    "exited s = None \<Longrightarrow> n < length (goroutines s) \<Longrightarrow>
     goroutines s ! n = AtExecute lang messageId d \<Longrightarrow>
     lookup (iLocalizer s) lang messageId = Some message \<Longrightarrow>
     parsedTemplate message = Some t \<Longrightarrow> execute t d = None \<Longrightarrow>
     step parse execute s (s\<lparr>exited := Some (ExecuteFailed messageId lang (Data message))\<rparr>)"
| execute_ok:
    "exited s = None \<Longrightarrow> n < length (goroutines s) \<Longrightarrow>
     goroutines s ! n = AtExecute lang messageId d \<Longrightarrow>
     lookup (iLocalizer s) lang messageId = Some message \<Longrightarrow>
     parsedTemplate message = Some t \<Longrightarrow> execute t d = Some out \<Longrightarrow>
     step parse execute s (s\<lparr>goroutines := (goroutines s)[n := Returned out]\<rparr>)"

text \<open>
  The process before any goroutine has moved: one goroutine for each call.
\<close>

definition start :: "'t catalog \<Rightarrow> (string \<times> string \<times> 'd) list \<Rightarrow> ('t, 'd) process" where
  "start cat calls =
     \<lparr>iLocalizer = cat, holder = (\<lambda>_. None),
      goroutines = map (\<lambda>(lang, messageId, d). Call lang messageId d) calls,
      compiled = [], exited = None\<rparr>"

text \<open>
  The state of the compiled-template slot of a message, read off the process: the slot is
  \<open>CompileFailed\<close> when the process has ended with the error of this message's
  compilation, \<open>Compiled\<close> when its \<^verbatim>\<open>sync.Once\<close> has fired, \<open>Compiling\<close> while a
  goroutine runs the function of its \<^verbatim>\<open>sync.Once\<close>, and \<open>Uncompiled\<close> otherwise.
  \<open>slotMove\<close> holds the edges of the state machine, and staying in place.
\<close>

datatype slot = Uncompiled | Compiling | Compiled | CompileFailed

definition slotOf :: "('t, 'd) process \<Rightarrow> string \<Rightarrow> string \<Rightarrow> slot" where
  "slotOf s lang messageId =
     (if (\<exists>data. exited s = Some (ParseFailed messageId lang data)) then CompileFailed
      else (case lookup (iLocalizer s) lang messageId of
              None \<Rightarrow> Uncompiled
            | Some message \<Rightarrow>
                if parseOnce message then Compiled
                else if holder s (lang, messageId) = None then Uncompiled
                else Compiling))"


text \<open>
  What every run keeps: the goroutine inside the function of a \<^verbatim>\<open>sync.Once\<close> is its
  holder, a \<^verbatim>\<open>sync.Once\<close> that is held has not fired, no message was compiled twice, and
  the messages that were compiled are those whose slot is \<open>Compiled\<close> or \<open>CompileFailed\<close>.
\<close>

definition once_inv :: "('t, 'd) process \<Rightarrow> bool" where
  "once_inv s \<longleftrightarrow>
     (\<forall>n lang messageId d. n < length (goroutines s) \<longrightarrow>
        goroutines s ! n = InDo lang messageId d \<longrightarrow> holder s (lang, messageId) = Some n) \<and>
     (\<forall>lang messageId n. holder s (lang, messageId) = Some n \<longrightarrow>
        (\<forall>message. lookup (iLocalizer s) lang messageId = Some message \<longrightarrow> \<not> parseOnce message)) \<and>
     distinct (compiled s) \<and>
     (\<forall>lang messageId. (lang, messageId) \<in> set (compiled s) \<longrightarrow>
        exited s \<noteq> None \<or>
        (\<exists>message. lookup (iLocalizer s) lang messageId = Some message \<and> parseOnce message))"

definition compiled_inv :: "('t, 'd) process \<Rightarrow> bool" where
  "compiled_inv s \<longleftrightarrow>
     (\<forall>l i. (l, i) \<in> set (compiled s) \<longleftrightarrow>
            slotOf s l i = Compiled \<or> slotOf s l i = CompileFailed)"

text \<open>
  The steps that a goroutine still has to take to the end of its call, and those of the
  whole process; after \<^verbatim>\<open>log.Fatalf\<close> there are none.
\<close>

fun stepsLeft :: "'d goroutine \<Rightarrow> nat" where
  "stepsLeft (Call lang messageId d) = 4"
| "stepsLeft (AtDo lang messageId d) = 3"
| "stepsLeft (InDo lang messageId d) = 2"
| "stepsLeft (AtExecute lang messageId d) = 1"
| "stepsLeft (Returned out) = 0"

definition remaining :: "('t, 'd) process \<Rightarrow> nat" where
  "remaining s = (if exited s = None then Suc (sum_list (map stepsLeft (goroutines s))) else 0)"

text \<open>
  A message is on the slow path when its raw content holds \<^verbatim>\<open>{{\<close>, and its \<^verbatim>\<open>sync.Once\<close>
  has fired when \<^verbatim>\<open>parseOnce.Do\<close> has returned for it.
\<close>

definition slowPath :: "'t catalog \<Rightarrow> string \<Rightarrow> string \<Rightarrow> bool" where
  "slowPath cat lang messageId \<longleftrightarrow>
     (\<exists>message. lookup cat lang messageId = Some message \<and>
        strings_Contains (Data message) leftDelim)"

definition fired :: "'t catalog \<Rightarrow> string \<Rightarrow> string \<Rightarrow> bool" where
  "fired cat lang messageId \<longleftrightarrow>
     (\<exists>message. lookup cat lang messageId = Some message \<and> parseOnce message)"

text \<open>
  What every run from a loaded catalog \<open>cat\<close> with the calls \<open>calls\<close> keeps, besides
  \<open>once_inv\<close> and \<open>compiled_inv\<close>: goroutine \<open>n\<close> runs the call \<open>calls ! n\<close>; past the test of
  \<^verbatim>\<open>strings.Contains\<close> its message is on the slow path, past \<^verbatim>\<open>parseOnce.Do\<close> the
  \<^verbatim>\<open>sync.Once\<close> of its message has fired, and when it has returned it has returned what the
  function \<open>Translate\<close> returns for its call on \<open>cat\<close>; the catalog holds the messages of
  \<open>cat\<close> with their raw content, each slot in order; the holder of a \<^verbatim>\<open>sync.Once\<close> is
  inside its function; and a compilation that has failed has not fired the \<^verbatim>\<open>sync.Once\<close>.
\<close>

fun goroutine_inv ::
  "(string \<Rightarrow> 't option) \<Rightarrow> ('t \<Rightarrow> 'd \<Rightarrow> string option) \<Rightarrow> 't catalog \<Rightarrow> 't catalog \<Rightarrow>
   string \<times> string \<times> 'd \<Rightarrow> 'd goroutine \<Rightarrow> bool" where
  "goroutine_inv parse execute cat now c (Call lang messageId d) = (c = (lang, messageId, d))"
| "goroutine_inv parse execute cat now c (AtDo lang messageId d) =
     (c = (lang, messageId, d) \<and> slowPath cat lang messageId)"
| "goroutine_inv parse execute cat now c (InDo lang messageId d) =
     (c = (lang, messageId, d) \<and> slowPath cat lang messageId)"
| "goroutine_inv parse execute cat now c (AtExecute lang messageId d) =
     (c = (lang, messageId, d) \<and> slowPath cat lang messageId \<and> fired now lang messageId)"
| "goroutine_inv parse execute cat now c (Returned out) =
     (case c of (lang, messageId, d) \<Rightarrow>
        (\<exists>cat'. Translate parse execute cat lang messageId d = Inr (out, cat')) \<and>
        (slowPath cat lang messageId \<longrightarrow> fired now lang messageId))"

definition run_inv ::
  "(string \<Rightarrow> 't option) \<Rightarrow> ('t \<Rightarrow> 'd \<Rightarrow> string option) \<Rightarrow> 't catalog \<Rightarrow>
   (string \<times> string \<times> 'd) list \<Rightarrow> ('t, 'd) process \<Rightarrow> bool" where
  "run_inv parse execute cat calls s \<longleftrightarrow>
     length (goroutines s) = length calls \<and>
     (\<forall>lang messageId.
        rel_option (\<lambda>loaded message. Data message = Data loaded \<and> slot_ok parse message)
          (lookup cat lang messageId) (lookup (iLocalizer s) lang messageId)) \<and>
     (\<forall>n < length calls.
        goroutine_inv parse execute cat (iLocalizer s) (calls ! n) (goroutines s ! n)) \<and>
     (\<forall>lang messageId n. holder s (lang, messageId) = Some n \<longrightarrow>
        n < length calls \<and> (\<exists>d. goroutines s ! n = InDo lang messageId d)) \<and>
     (\<forall>lang messageId data. exited s = Some (ParseFailed messageId lang data) \<longrightarrow>
        \<not> fired (iLocalizer s) lang messageId)"

subsection \<open>Validation of a catalog\<close>

lemma checkOthers_None_iff:
  "distinct (map fst firstMap) \<Longrightarrow> list_all (\<lambda>(lang, mp). distinct (map fst mp)) rest \<Longrightarrow>
   checkOthers firstLang firstMap rest = None \<longleftrightarrow>
   (\<forall>(lang, mp) \<in> set rest. message_ids mp = message_ids firstMap)"
proof (induction rest)
  case Nil
  then show ?case by simp
next
  case (Cons p rest)
  obtain lang mp where p: "p = (lang, mp)" by (cases p)
  from Cons.prems p have dmp: "distinct (map fst mp)" by simp
  have ids: "message_ids mp = set (map fst mp)" "message_ids firstMap = set (map fst firstMap)"
    by (simp_all add: message_ids_def)
  have card_mp: "card (message_ids mp) = length mp"
    using dmp distinct_card[of "map fst mp"] by (simp add: ids)
  have card_fm: "card (message_ids firstMap) = length firstMap"
    using Cons.prems(1) distinct_card[of "map fst firstMap"] by (simp add: ids)
  have found: "find (\<lambda>k. map_of mp k = None) (map fst firstMap) = None \<longleftrightarrow>
               message_ids firstMap \<subseteq> message_ids mp"
    by (auto simp: find_None_iff message_ids_def map_of_eq_None_iff)
  have step: "length mp = length firstMap \<and> message_ids firstMap \<subseteq> message_ids mp \<longleftrightarrow>
              message_ids mp = message_ids firstMap"
  proof
    assume a: "length mp = length firstMap \<and> message_ids firstMap \<subseteq> message_ids mp"
    have fin: "finite (message_ids mp)" by (simp add: message_ids_def)
    from a card_mp card_fm have "card (message_ids firstMap) = card (message_ids mp)" by simp
    with a fin show "message_ids mp = message_ids firstMap"
      using card_subset_eq[of "message_ids mp" "message_ids firstMap"] by simp
  next
    assume "message_ids mp = message_ids firstMap"
    with card_mp card_fm show "length mp = length firstMap \<and> message_ids firstMap \<subseteq> message_ids mp"
      by simp
  qed
  have IH: "checkOthers firstLang firstMap rest = None \<longleftrightarrow>
            (\<forall>(lang, mp) \<in> set rest. message_ids mp = message_ids firstMap)"
    using Cons.IH Cons.prems by simp
  show ?case
  proof (cases "length mp = length firstMap")
    case False
    with step show ?thesis by (auto simp: p)
  next
    case len: True
    show ?thesis
    proof (cases "find (\<lambda>k. map_of mp k = None) (map fst firstMap)")
      case None
      with found step len IH show ?thesis by (simp add: p)
    next
      case (Some k)
      with found have "\<not> message_ids firstMap \<subseteq> message_ids mp" by simp
      with Some len show ?thesis by (auto simp: p)
    qed
  qed
qed

lemma checkOthers_MapLengthNotEqual:
  "checkOthers firstLang firstMap rest = Some (MapLengthNotEqual l n r n') \<Longrightarrow>
   r = firstLang \<and> n' = length firstMap \<and> n \<noteq> n' \<and> (\<exists>mp. (l, mp) \<in> set rest \<and> n = length mp)"
  by (induction rest) (auto split: if_splits option.splits)

lemma checkOthers_MissingMessageId:
  "checkOthers firstLang firstMap rest = Some (MissingMessageId l r k) \<Longrightarrow>
   r = firstLang \<and> k \<in> message_ids firstMap \<and>
   (\<exists>mp. (l, mp) \<in> set rest \<and> length mp = length firstMap \<and> k \<notin> message_ids mp)"
proof (induction rest)
  case Nil
  then show ?case by simp
next
  case (Cons p rest)
  obtain lang mp where p: "p = (lang, mp)" by (cases p)
  show ?case
  proof (cases "length mp = length firstMap")
    case False
    with Cons.prems show ?thesis by (simp add: p)
  next
    case len: True
    show ?thesis
    proof (cases "find (\<lambda>k. map_of mp k = None) (map fst firstMap)")
      case None
      with len Cons show ?thesis by (auto simp: p)
    next
      case (Some k')
      with len Cons.prems have e: "l = lang" "r = firstLang" "k = k'" by (simp_all add: p)
      from Some have "k' \<in> set (map fst firstMap)" "map_of mp k' = None"
        by (auto simp: find_Some_iff)
      then have "k' \<in> message_ids firstMap" "k' \<notin> message_ids mp"
        by (auto simp: message_ids_def map_of_eq_None_iff)
      with e len show ?thesis by (auto simp: p)
    qed
  qed
qed

lemma checkOthers_error_shape:
  "checkOthers firstLang firstMap rest = Some e \<Longrightarrow>
   (\<exists>l n n'. e = MapLengthNotEqual l n firstLang n') \<or> (\<exists>l k. e = MissingMessageId l firstLang k)"
  by (induction rest) (auto split: if_splits option.splits)

lemma strings_Contains_iff: "strings_Contains s substr \<longleftrightarrow> (\<exists>a b. s = a @ substr @ b)"
proof (induction s)
  case Nil
  then show ?case by auto
next
  case (Cons c cs)
  show ?case
  proof
    assume "strings_Contains (c # cs) substr"
    then consider "take (length substr) (c # cs) = substr" | "strings_Contains cs substr" by auto
    then show "\<exists>a b. c # cs = a @ substr @ b"
    proof cases
      case 1
      then have "c # cs = [] @ substr @ drop (length substr) (c # cs)"
        by (metis append_Nil append_take_drop_id)
      then show ?thesis by blast
    next
      case 2
      with Cons.IH obtain a b where "cs = a @ substr @ b" by auto
      then have "c # cs = (c # a) @ substr @ b" by simp
      then show ?thesis by blast
    qed
  next
    assume "\<exists>a b. c # cs = a @ substr @ b"
    then obtain a b where ab: "c # cs = a @ substr @ b" by auto
    show "strings_Contains (c # cs) substr"
    proof (cases a)
      case Nil
      with ab have "take (length substr) (c # cs) = substr" by simp
      then show ?thesis by simp
    next
      case (Cons x a')
      with ab have "cs = a' @ substr @ b" by simp
      with Cons.IH have "strings_Contains cs substr" by blast
      then show ?thesis by simp
    qed
  qed
qed

lemma checkLanguageMap_at_most_one: "length cat \<le> 1 \<Longrightarrow> checkLanguageMap cat = None"
  by (cases cat; cases "tl cat") auto

text \<open>
  Whether the validation succeeds does not depend on the order in which the locales are
  visited.
\<close>

lemma checkLanguageMap_None_iff:
  assumes "wf_catalog cat"
  shows "checkLanguageMap cat = None \<longleftrightarrow>
         (\<forall>e \<in> set cat. \<forall>e' \<in> set cat. message_ids (snd e) = message_ids (snd e'))"
proof (cases cat)
  case Nil
  then show ?thesis by simp
next
  case (Cons p rest)
  obtain firstLang firstMap where p: "p = (firstLang, firstMap)" by (cases p)
  from assms Cons p have d: "distinct (map fst firstMap)"
    "list_all (\<lambda>(lang, mp). distinct (map fst mp)) rest"
    by (simp_all add: wf_catalog_def)
  have "checkLanguageMap cat = None \<longleftrightarrow>
        (\<forall>e \<in> set rest. message_ids (snd e) = message_ids firstMap)"
    using checkOthers_None_iff[OF d, of firstLang] Cons p by auto
  also have "\<dots> \<longleftrightarrow> (\<forall>e \<in> set cat. message_ids (snd e) = message_ids firstMap)"
    using Cons p by simp
  also have "\<dots> \<longleftrightarrow> (\<forall>e \<in> set cat. \<forall>e' \<in> set cat. message_ids (snd e) = message_ids (snd e'))"
  proof
    assume "\<forall>e \<in> set cat. message_ids (snd e) = message_ids firstMap"
    then show "\<forall>e \<in> set cat. \<forall>e' \<in> set cat. message_ids (snd e) = message_ids (snd e')"
      by simp
  next
    assume a: "\<forall>e \<in> set cat. \<forall>e' \<in> set cat. message_ids (snd e) = message_ids (snd e')"
    have "(firstLang, firstMap) \<in> set cat" using Cons p by simp
    with a show "\<forall>e \<in> set cat. message_ids (snd e) = message_ids firstMap" by fastforce
  qed
  finally show ?thesis .
qed

lemma checkLanguageMap_order:
  assumes "wf_catalog cat" and "wf_catalog cat'" and "set cat' = set cat"
  shows "checkLanguageMap cat' = None \<longleftrightarrow> checkLanguageMap cat = None"
  unfolding checkLanguageMap_None_iff[OF assms(1)] checkLanguageMap_None_iff[OF assms(2)] assms(3)
  by (rule refl)

lemma strings_Split_no_sep: "sep \<notin> set s \<Longrightarrow> strings_Split s sep = [s]"
  by (induction s) auto

lemma strings_Split_append:
  "sep \<notin> set a \<Longrightarrow> strings_Split (a @ sep # b) sep = a # strings_Split b sep"
  by (induction a) auto

lemma strings_Split_three:
  assumes "CHR ''.'' \<notin> set module" "CHR ''.'' \<notin> set lang"
  shows "strings_Split (module @ ''.'' @ lang @ ''.toml'') (CHR ''.'') = [module, lang, ''toml'']"
proof -
  have "strings_Split (''toml'') (CHR ''.'') = [''toml'']" by simp
  then have "strings_Split (lang @ CHR ''.'' # ''toml'') (CHR ''.'') = [lang, ''toml'']"
    using strings_Split_append[OF assms(2), of "''toml''"] by simp
  then show ?thesis
    using strings_Split_append[OF assms(1), of "lang @ ''.toml''"] by simp
qed


text \<open>
  C10. A catalog of at most one locale passes the validation whatever its message ids
  are: the first locale becomes the reference and nothing is compared. So does the
  catalog that \<open>RegisterI18n\<close> builds from one file \<^verbatim>\<open><module>.<lang>.toml\<close> whose document
  defines no message: one locale with the empty table.
\<close>

theorem validation_of_at_most_one_locale:
  "(length cat \<le> 1 \<longrightarrow> checkLanguageMap cat = None) \<and>
   (validTag lang \<and> CHR ''.'' \<notin> set module \<and> CHR ''.'' \<notin> set lang \<longrightarrow>
      RegisterI18n validTag localeDir
        (Some [(module @ ''.'' @ lang @ ''.toml'', Document (Table []))]) [] = Inr [(lang, [])])"
proof (intro conjI impI)
  assume "length cat \<le> 1"
  then show "checkLanguageMap cat = None" by (cases cat; cases "tl cat") auto
next
  assume a: "validTag lang \<and> CHR ''.'' \<notin> set module \<and> CHR ''.'' \<notin> set lang"
  then have "strings_Split (module @ ''.'' @ lang @ ''.toml'') (CHR ''.'') = [module, lang, ''toml'']"
    using strings_Split_three by simp
  with a show "RegisterI18n validTag localeDir
        (Some [(module @ ''.'' @ lang @ ''.toml'', Document (Table []))]) [] = Inr [(lang, [])]"
    by (simp add: RegisterI18n_def)
qed

theorem validation_of_at_most_one_locale_witness:
  "checkLanguageMap
     [(''en-US'', [(''Greeting'', \<lparr>Data = ''Hello'', parseOnce = False,
                                   parsedTemplate = None :: node list option\<rparr>)])] = None \<and>
   checkLanguageMap ([] :: node list catalog) = None \<and>
   RegisterI18n (\<lambda>tag. tag = ''en-US'' \<or> tag = ''zh-CN'') ''locales''
     (Some [(''order.en-US.toml'', Document (Table []))]) ([] :: node list catalog) =
   Inr [(''en-US'', [])]"
  using validation_of_at_most_one_locale
          [of "[(''en-US'', [(''Greeting'', \<lparr>Data = ''Hello'', parseOnce = False,
                                   parsedTemplate = None :: node list option\<rparr>)])]"
              "\<lambda>tag. tag = ''en-US'' \<or> tag = ''zh-CN''" "''en-US''" "''order''" "''locales''"]
        validation_of_at_most_one_locale
          [of "[] :: node list catalog" "\<lambda>tag. True" "''en''" "''m''" "''locales''"]
  by simp

text \<open>
  C1, as the code has it. For a catalog with unique keys, \<open>checkLanguageMap\<close> succeeds
  if and only if every locale has the message ids of the reference locale (the first one
  visited). A failure names the offending locale and the reference locale, and then
  either the two table sizes, when they differ (no message id is named then), or, when
  the sizes agree, an id of the reference that the offending locale lacks.
\<close>

theorem checkLanguageMap_validates:
  assumes "wf_catalog cat" and "cat = (firstLang, firstMap) # rest"
  shows "(checkLanguageMap cat = None \<longleftrightarrow>
            (\<forall>(lang, mp) \<in> set cat. message_ids mp = message_ids firstMap)) \<and>
         (\<forall>e. checkLanguageMap cat = Some e \<longrightarrow>
            (\<exists>lang mp. (lang, mp) \<in> set rest \<and>
               (length mp \<noteq> length firstMap \<and>
                  e = MapLengthNotEqual lang (length mp) firstLang (length firstMap) \<or>
                length mp = length firstMap \<and>
                  (\<exists>k. k \<in> message_ids firstMap \<and> k \<notin> message_ids mp \<and>
                       e = MissingMessageId lang firstLang k))))"
proof (intro conjI allI impI)
  from assms have d: "distinct (map fst firstMap)"
    "list_all (\<lambda>(lang, mp). distinct (map fst mp)) rest"
    by (simp_all add: wf_catalog_def)
  show "checkLanguageMap cat = None \<longleftrightarrow>
          (\<forall>(lang, mp) \<in> set cat. message_ids mp = message_ids firstMap)"
    using checkOthers_None_iff[OF d] assms(2) by simp
next
  fix e
  assume "checkLanguageMap cat = Some e"
  with assms(2) have e: "checkOthers firstLang firstMap rest = Some e" by simp
  from checkOthers_error_shape[OF e]
  consider l n n' where "e = MapLengthNotEqual l n firstLang n'"
    | l k where "e = MissingMessageId l firstLang k" by blast
  then show "\<exists>lang mp. (lang, mp) \<in> set rest \<and>
               (length mp \<noteq> length firstMap \<and>
                  e = MapLengthNotEqual lang (length mp) firstLang (length firstMap) \<or>
                length mp = length firstMap \<and>
                  (\<exists>k. k \<in> message_ids firstMap \<and> k \<notin> message_ids mp \<and>
                       e = MissingMessageId lang firstLang k))"
  proof cases
    case 1
    with e checkOthers_MapLengthNotEqual[of firstLang firstMap rest l n firstLang n']
    show ?thesis by auto
  next
    case 2
    with e checkOthers_MissingMessageId[of firstLang firstMap rest l firstLang k]
    show ?thesis by auto
  qed
qed

theorem checkLanguageMap_validates_witness:
  "checkLanguageMap
     [(''en-US'', [(''A.B'', \<lparr>Data = ''Order not found'', parseOnce = False,
                               parsedTemplate = None :: node list option\<rparr>)]),
      (''zh-CN'', [(''A.C'', \<lparr>Data = ''x'', parseOnce = False, parsedTemplate = None\<rparr>)])]
   = Some (MissingMessageId ''zh-CN'' ''en-US'' ''A.B'')"
proof -
  let ?m1 = "\<lparr>Data = ''Order not found'', parseOnce = False,
               parsedTemplate = None :: node list option\<rparr>"
  let ?m2 = "\<lparr>Data = ''x'', parseOnce = False, parsedTemplate = None :: node list option\<rparr>"
  let ?cat = "[(''en-US'', [(''A.B'', ?m1)]), (''zh-CN'', [(''A.C'', ?m2)])]"
  have wf: "wf_catalog ?cat" by (simp add: wf_catalog_def)
  have ne: "checkLanguageMap ?cat \<noteq> None"
    using checkLanguageMap_validates[OF wf refl] by (simp add: message_ids_def)
  then obtain e where e: "checkLanguageMap ?cat = Some e" by auto
  with checkLanguageMap_validates[OF wf refl]
  have "e = MissingMessageId ''zh-CN'' ''en-US'' ''A.B''"
    by (auto simp: message_ids_def)
  with e show ?thesis by simp
qed

theorem checkLanguageMap_size_error_counterexample:
  "checkLanguageMap
     [(''en-US'', [(''A.B'', \<lparr>Data = ''Order not found'', parseOnce = False,
                               parsedTemplate = None :: node list option\<rparr>)]),
      (''zh-CN'', [])]
   = Some (MapLengthNotEqual ''zh-CN'' 0 ''en-US'' 1)"
  by simp

text \<open>
  C4. When the raw content of the message holds no \<^verbatim>\<open>{{\<close>, \<open>Translate\<close> returns it
  unchanged, for every template data, and leaves the catalog as it was; the result does
  not depend on the template engine, which is not called.
\<close>

theorem Translate_fast_path:
  assumes "lookup cat lang messageId = Some message"
    and "\<forall>a b. Data message \<noteq> a @ ''{{'' @ b"
  shows "Translate parse execute cat lang messageId templateDate = Inr (Data message, cat)"
proof -
  from assms(2) have "\<not> strings_Contains (Data message) leftDelim"
    unfolding strings_Contains_iff leftDelim_def by blast
  with assms(1) show ?thesis
    by (auto simp: Translate_def lookup_def split: option.splits)
qed

theorem Translate_fast_path_witness:
  "Translate gotemplate_Parse gotemplate_Execute
     [(''en-US'', [(''Order.NotFound.Description'',
                    \<lparr>Data = ''Order not found'', parseOnce = False, parsedTemplate = None\<rparr>)])]
     ''en-US'' ''Order.NotFound.Description'' [''Name'' \<mapsto> ''Ana''] =
   Inr (''Order not found'',
     [(''en-US'', [(''Order.NotFound.Description'',
                    \<lparr>Data = ''Order not found'', parseOnce = False, parsedTemplate = None\<rparr>)])])"
proof -
  let ?m = "\<lparr>Data = ''Order not found'', parseOnce = False,
              parsedTemplate = None :: node list option\<rparr>"
  let ?cat = "[(''en-US'', [(''Order.NotFound.Description'', ?m)])]"
  have l: "lookup ?cat ''en-US'' ''Order.NotFound.Description'' = Some ?m"
    by (simp add: lookup_def)
  have "\<not> strings_Contains (Data ?m) ''{{''" by simp
  then have n: "\<forall>a b. Data ?m \<noteq> a @ ''{{'' @ b"
    unfolding strings_Contains_iff by blast
  show ?thesis using Translate_fast_path[OF l n] by simp
qed

lemma list_all2_update:
  assumes "map_of al k = Some v" "R (k, v) (k, v')" "\<And>x. R x x"
  shows "list_all2 R al (AList.update k v' al)"
  using assms(1,2)
proof (induction al)
  case Nil
  then show ?case by simp
next
  case (Cons p al)
  show ?case
  proof (cases "fst p = k")
    case True
    with Cons.prems have "p = (k, v)" by (cases p) auto
    with Cons.prems assms(3) show ?thesis by (simp add: list_all2_refl)
  next
    case False
    with Cons assms(3) show ?thesis by (cases p) auto
  qed
qed

lemma message_kept_refl: "message_kept e e"
  by (simp add: message_kept_def)

lemma localizer_kept_refl: "localizer_kept l l"
  by (simp add: localizer_kept_def list_all2_refl message_kept_refl)

lemma catalog_kept_refl: "catalog_kept cat cat"
  by (simp add: catalog_kept_def list_all2_refl localizer_kept_refl)

lemma message_kept_trans: "message_kept a b \<Longrightarrow> message_kept b c \<Longrightarrow> message_kept a c"
  by (auto simp: message_kept_def)

lemma localizer_kept_trans: "localizer_kept a b \<Longrightarrow> localizer_kept b c \<Longrightarrow> localizer_kept a c"
  unfolding localizer_kept_def
  using list_all2_trans[of message_kept message_kept message_kept, OF message_kept_trans]
  by auto

lemma catalog_kept_trans: "catalog_kept a b \<Longrightarrow> catalog_kept b c \<Longrightarrow> catalog_kept a c"
  unfolding catalog_kept_def
  using list_all2_trans[of localizer_kept localizer_kept localizer_kept, OF localizer_kept_trans]
  by auto

lemma parseOnce_Do_kept:
  "parseOnce_Do parse lang messageId m = Inr m' \<Longrightarrow> slot_ok parse m \<Longrightarrow>
   message_kept (k, m) (k, m') \<and> slot_ok parse m' \<and> parseOnce m' \<and>
   parsedTemplate m' = parse (Data m)"
  by (auto simp: parseOnce_Do_def message_kept_def slot_ok_def split: if_splits option.splits)
     (metis option.distinct(1))+

lemma catalog_ok_lookup:
  "catalog_ok parse cat \<Longrightarrow> map_of cat lang = Some mp \<Longrightarrow> map_of mp k = Some m \<Longrightarrow> slot_ok parse m"
  by (auto simp: catalog_ok_def list_all_iff dest!: map_of_SomeD)

lemma set_update_subset: "set (AList.update k v al) \<subseteq> insert (k, v) (set al)"
  by (induction al) auto

lemma catalog_ok_update:
  assumes "catalog_ok parse cat" "map_of cat lang = Some mp" "slot_ok parse m'"
  shows "catalog_ok parse (AList.update lang (AList.update k m' mp) cat)"
proof -
  from assms(1,2) have mp: "list_all (\<lambda>(k, m). slot_ok parse m) mp"
    by (auto simp: catalog_ok_def list_all_iff dest!: map_of_SomeD)
  with assms(3) set_update_subset[of k m' mp]
  have "list_all (\<lambda>(k, m). slot_ok parse m) (AList.update k m' mp)"
    by (auto simp: list_all_iff)
  with assms(1) set_update_subset[of lang "AList.update k m' mp" cat] show ?thesis
    unfolding catalog_ok_def list_all_iff by fastforce
qed

lemma Translate_step:
  assumes "Translate parse execute cat lang messageId d = Inr (out, cat')"
    and "catalog_ok parse cat"
  shows "catalog_kept cat cat' \<and> catalog_ok parse cat'"
proof -
  from assms(1) obtain mp m where mp: "map_of cat lang = Some mp" and m: "map_of mp messageId = Some m"
    by (auto simp: Translate_def split: option.splits)
  have ok: "slot_ok parse m" using catalog_ok_lookup[OF assms(2) mp m] .
  show ?thesis
  proof (cases "strings_Contains (Data m) leftDelim")
    case False
    with assms mp m have "cat' = cat" by (simp add: Translate_def)
    with assms(2) show ?thesis by (simp add: catalog_kept_refl)
  next
    case True
    with assms(1) mp m obtain m' where m': "parseOnce_Do parse lang messageId m = Inr m'"
      and cat': "cat' = AList.update lang (AList.update messageId m' mp) cat"
      by (auto simp: Translate_def split: sum.splits option.splits)
    from parseOnce_Do_kept[OF m' ok] have k: "message_kept (messageId, m) (messageId, m')"
      and ok': "slot_ok parse m'" by auto
    have "list_all2 message_kept mp (AList.update messageId m' mp)"
      using list_all2_update[where R = message_kept, OF m k] message_kept_refl by blast
    then have "localizer_kept (lang, mp) (lang, AList.update messageId m' mp)"
      by (simp add: localizer_kept_def)
    then have "catalog_kept cat cat'"
      unfolding catalog_kept_def cat'
      using list_all2_update[where R = localizer_kept, OF mp] localizer_kept_refl by blast
    moreover have "catalog_ok parse cat'"
      unfolding cat' using catalog_ok_update[OF assms(2) mp ok'] .
    ultimately show ?thesis by simp
  qed
qed

lemma TranslateAll_steps:
  "TranslateAll parse execute cat calls = Inr (outs, cat') \<Longrightarrow> catalog_ok parse cat \<Longrightarrow>
   catalog_kept cat cat' \<and> catalog_ok parse cat'"
proof (induction calls arbitrary: cat outs)
  case Nil
  then show ?case by (simp add: catalog_kept_refl)
next
  case (Cons c calls)
  obtain lang messageId d where c: "c = (lang, messageId, d)" by (cases c)
  from Cons.prems(1) c obtain out cat1 outs1 where
    t: "Translate parse execute cat lang messageId d = Inr (out, cat1)" and
    r: "TranslateAll parse execute cat1 calls = Inr (outs1, cat')"
    by (auto split: sum.splits)
  from Translate_step[OF t Cons.prems(2)] Cons.IH[OF r] show ?case
    using catalog_kept_trans by blast
qed

lemma list_all2_map_of:
  assumes "list_all2 R al al'" "\<And>e e'. R e e' \<Longrightarrow> fst e' = fst e" "map_of al k = Some v"
  shows "\<exists>v'. map_of al' k = Some v' \<and> R (k, v) (k, v')"
  using assms(1,3)
proof (induction al al' rule: list_all2_induct)
  case Nil
  then show ?case by simp
next
  case (Cons e al e' al')
  from assms(2)[OF Cons.hyps(1)] have f: "fst e' = fst e" .
  show ?case
  proof (cases "fst e = k")
    case True
    with Cons.prems have "e = (k, v)" by (cases e) auto
    moreover from True f have "e' = (k, snd e')" by (cases e') auto
    ultimately show ?thesis using Cons.hyps(1) by (metis map_of_Cons_code(2))
  next
    case False
    with f Cons show ?thesis by (cases e; cases e') auto
  qed
qed

lemma catalog_kept_lookup:
  assumes "catalog_kept cat cat'" "map_of cat lang = Some mp" "map_of mp k = Some m"
  shows "\<exists>mp' m'. map_of cat' lang = Some mp' \<and> map_of mp' k = Some m' \<and>
           Data m' = Data m \<and> (parsedTemplate m = None \<or> parsedTemplate m' = parsedTemplate m)"
proof -
  from list_all2_map_of[where R = localizer_kept, OF assms(1)[unfolded catalog_kept_def] _ assms(2)]
  obtain mp' where mp': "map_of cat' lang = Some mp'" "localizer_kept (lang, mp) (lang, mp')"
    by (auto simp: localizer_kept_def)
  then have "list_all2 message_kept mp mp'" by (simp add: localizer_kept_def)
  from list_all2_map_of[where R = message_kept, OF this _ assms(3)]
  obtain m' where "map_of mp' k = Some m'" "message_kept (k, m) (k, m')"
    by (auto simp: message_kept_def)
  with mp' show ?thesis by (auto simp: message_kept_def)
qed

lemma Translate_again:
  assumes t: "Translate parse execute cat lang messageId d = Inr (out, cat1)"
    and ok: "catalog_ok parse cat"
    and kept: "catalog_kept cat1 cat2" and ok2: "catalog_ok parse cat2"
  shows "Translate parse execute cat2 lang messageId d = Inr (out, cat2)"
proof -
  from t obtain mp m where mp: "map_of cat lang = Some mp" and m: "map_of mp messageId = Some m"
    by (auto simp: Translate_def split: option.splits)
  have sok: "slot_ok parse m" using catalog_ok_lookup[OF ok mp m] .
  show ?thesis
  proof (cases "strings_Contains (Data m) leftDelim")
    case False
    with t mp m have e: "cat1 = cat" "out = Data m" by (simp_all add: Translate_def)
    from catalog_kept_lookup[OF kept[unfolded e] mp m]
    obtain mp2 m2 where "map_of cat2 lang = Some mp2" "map_of mp2 messageId = Some m2"
      "Data m2 = Data m" by blast
    with False e show ?thesis by (simp add: Translate_def)
  next
    case True
    with t mp m obtain m' tm where m': "parseOnce_Do parse lang messageId m = Inr m'"
      and tm: "parsedTemplate m' = Some tm" and ex: "execute tm d = Some out"
      and cat1: "cat1 = AList.update lang (AList.update messageId m' mp) cat"
      by (auto simp: Translate_def split: sum.splits option.splits)
    from parseOnce_Do_kept[OF m' sok, of messageId] have dm: "Data m' = Data m"
      by (simp add: message_kept_def)
    have l1: "map_of cat1 lang = Some (AList.update messageId m' mp)"
      "map_of (AList.update messageId m' mp) messageId = Some m'"
      by (simp_all add: cat1 update_conv')
    from catalog_kept_lookup[OF kept l1] tm
    obtain mp2 m2 where mp2: "map_of cat2 lang = Some mp2" and m2: "map_of mp2 messageId = Some m2"
      and d2: "Data m2 = Data m'" and t2: "parsedTemplate m2 = Some tm" by auto
    from catalog_ok_lookup[OF ok2 mp2 m2] t2 have once: "parseOnce m2"
      by (auto simp: slot_ok_def split: if_splits)
    then have "parseOnce_Do parse lang messageId m2 = Inr m2" by (simp add: parseOnce_Do_def)
    moreover have "AList.update lang (AList.update messageId m2 mp2) cat2 = cat2"
      using mp2 m2 by (simp add: update_triv)
    ultimately show ?thesis
      using mp2 m2 d2 dm t2 ex True by (simp add: Translate_def)
  qed
qed

lemma fst_newEntries [simp]: "map fst (newEntries kds) = map fst kds"
  by (induction kds) (auto simp: newEntries_def)

lemma newEntries_append [simp]: "newEntries (a @ b) = newEntries a @ newEntries b"
  by (simp add: newEntries_def)

lemma newEntries_Nil [simp]: "newEntries [] = []"
  by (simp add: newEntries_def)

lemma update_append_notin: "map_of al k = None \<Longrightarrow> AList.update k v al = al @ [(k, v)]"
  by (induction al) (auto split: if_splits)

lemma keys_newEntries [simp]: "fst ` set (newEntries kds) = fst ` set kds"
  by (induction kds) (auto simp: newEntries_def)

lemma map_of_append_newEntries_None:
  "map_of (mp @ newEntries a) k = None \<longleftrightarrow> map_of mp k = None \<and> k \<notin> fst ` set a"
  by (simp add: map_of_eq_None_iff image_Un)

lemma addable_append:
  "addable mp (a @ b) \<longleftrightarrow> addable mp a \<and> addable (mp @ newEntries a) b"
proof -
  have 1: "list_all (\<lambda>(k, d). map_of (mp @ newEntries a) k = None) b \<longleftrightarrow>
        list_all (\<lambda>(k, d). map_of mp k = None) b \<and> fst ` set a \<inter> fst ` set b = {}"
  proof (induction b)
    case Nil
    then show ?case by simp
  next
    case (Cons p b)
    obtain k d where p: "p = (k, d)" by (cases p)
    show ?case unfolding p using Cons.IH
      by (simp add: map_of_append_newEntries_None del: map_of_append) blast
  qed
  have 2: "distinct (map fst (a @ b)) \<longleftrightarrow>
        distinct (map fst a) \<and> distinct (map fst b) \<and> fst ` set a \<inter> fst ` set b = {}"
    by simp
  show ?thesis
    unfolding addable_def 1 2 list_all_append by blast
qed

lemma recGetMessages_rangeData_result:
  "(\<forall>mp. map_of (cat :: 't catalog) lang = Some mp \<longrightarrow>
      (if supported v \<and> addable mp (flatten messageId v)
       then recGetMessages lang messageId v cat =
              Inr (AList.update lang (mp @ newEntries (flatten messageId v)) cat)
       else \<exists>e. recGetMessages lang messageId v cat = Inl e))"
  "(\<forall>mp. map_of (cat :: 't catalog) lang = Some mp \<longrightarrow>
      (if supportedEntries kvs \<and> addable mp (flattenEntries messageId kvs)
       then rangeData lang messageId kvs cat =
              Inr (AList.update lang (mp @ newEntries (flattenEntries messageId kvs)) cat)
       else \<exists>e. rangeData lang messageId kvs cat = Inl e))"
proof (induction lang messageId v cat and lang messageId kvs cat
       rule: recGetMessages_rangeData.induct)
  case (1 lang messageId data cat)
  show ?case
  proof (intro allI impI)
    fix mp assume mp: "map_of cat lang = Some mp"
    have a: "addable mp (flatten messageId (Str data)) \<longleftrightarrow> data \<noteq> [] \<and> map_of mp messageId = None"
      by (simp add: addable_def)
    show "if supported (Str data) \<and> addable mp (flatten messageId (Str data))
       then recGetMessages lang messageId (Str data) cat =
              Inr (AList.update lang (mp @ newEntries (flatten messageId (Str data))) cat)
       else \<exists>e. recGetMessages lang messageId (Str data) cat = Inl e"
    proof (cases "data \<noteq> [] \<and> map_of mp messageId = None")
      case True
      then have "AList.update messageId (newMessage data) mp = mp @ [(messageId, newMessage data)]"
        by (simp add: update_append_notin)
      with True mp a show ?thesis by (simp add: newEntries_def)
    next
      case False
      with mp a show ?thesis by (cases "map_of mp messageId") auto
    qed
  qed
next
  case (2 lang messageId data cat)
  then show ?case by simp
next
  case (3 lang messageId cat)
  show ?case by simp
next
  case (4 lang messageId cat)
  show ?case by (simp add: addable_def update_triv)
next
  case (5 lang messageId k v rest cat)
  let ?id = "if messageId \<noteq> [] then messageId @ ''.'' @ k else k"
  show ?case
  proof (intro allI impI)
    fix mp assume mp: "map_of cat lang = Some mp"
    let ?A = "flatten ?id v" and ?B = "flattenEntries messageId rest"
    show "if supportedEntries ((k, v) # rest) \<and> addable mp (flattenEntries messageId ((k, v) # rest))
       then rangeData lang messageId ((k, v) # rest) cat =
              Inr (AList.update lang (mp @ newEntries (flattenEntries messageId ((k, v) # rest))) cat)
       else \<exists>e. rangeData lang messageId ((k, v) # rest) cat = Inl e"
    proof (cases "supported v \<and> addable mp ?A")
      case False
      with "5.IH"(1) mp obtain e where "recGetMessages lang ?id v cat = Inl e" by auto
      with False show ?thesis by (auto simp: addable_append)
    next
      case True
      let ?cat1 = "AList.update lang (mp @ newEntries ?A) cat"
      from True "5.IH"(1) mp have r: "recGetMessages lang ?id v cat = Inr ?cat1" by auto
      have mp1: "map_of ?cat1 lang = Some (mp @ newEntries ?A)" by (simp add: update_conv')
      from "5.IH"(2)[OF r] mp1
      have IH2: "if supportedEntries rest \<and> addable (mp @ newEntries ?A) ?B
         then rangeData lang messageId rest ?cat1 =
                Inr (AList.update lang ((mp @ newEntries ?A) @ newEntries ?B) ?cat1)
         else \<exists>e. rangeData lang messageId rest ?cat1 = Inl e" by blast
      show ?thesis
      proof (cases "supportedEntries rest \<and> addable (mp @ newEntries ?A) ?B")
        case t2: True
        with IH2 r True show ?thesis by (simp add: addable_append)
      next
        case f2: False
        with IH2 obtain e where "rangeData lang messageId rest ?cat1 = Inl e" by auto
        with r f2 True show ?thesis by (auto simp: addable_append)
      qed
    qed
  qed
qed

lemma strings_Split_nonempty [simp]: "strings_Split s sep \<noteq> []"
  by (induction s) (auto split: list.splits)

lemma strings_Split_join: "joinSegments sep (strings_Split s sep) = s"
proof (induction s)
  case Nil
  then show ?case by simp
next
  case (Cons c cs)
  show ?case
  proof (cases "c = sep")
    case True
    with Cons show ?thesis by (cases "strings_Split cs sep") auto
  next
    case False
    obtain seg segs where s: "strings_Split cs sep = seg # segs"
      by (cases "strings_Split cs sep") auto
    with Cons False show ?thesis by (cases segs) auto
  qed
qed

lemma strings_Split_segments: "seg \<in> set (strings_Split s sep) \<Longrightarrow> sep \<notin> set seg"
proof (induction s arbitrary: seg)
  case Nil
  then show ?case by simp
next
  case (Cons c cs)
  show ?case
  proof (cases "c = sep")
    case True
    with Cons show ?thesis by auto
  next
    case False
    obtain sg segs where s: "strings_Split cs sep = sg # segs"
      by (cases "strings_Split cs sep") auto
    with Cons.prems False have "seg = c # sg \<or> seg \<in> set segs" by auto
    with Cons.IH s False show ?thesis by auto
  qed
qed

lemma strings_Split_two_iff:
  "strings_Split s sep = [a, b] \<longleftrightarrow> s = a @ sep # b \<and> sep \<notin> set a \<and> sep \<notin> set b"
proof
  assume h: "strings_Split s sep = [a, b]"
  from strings_Split_join[of sep s] h have "s = a @ sep # b" by simp
  moreover from strings_Split_segments[of a s sep] strings_Split_segments[of b s sep] h
  have "sep \<notin> set a" "sep \<notin> set b" by auto
  ultimately show "s = a @ sep # b \<and> sep \<notin> set a \<and> sep \<notin> set b" by simp
next
  assume "s = a @ sep # b \<and> sep \<notin> set a \<and> sep \<notin> set b"
  then show "strings_Split s sep = [a, b]"
    by (simp add: strings_Split_append strings_Split_no_sep)
qed

lemma strings_Split_three_iff:
  "strings_Split s sep = [a, b, c] \<longleftrightarrow>
     s = a @ sep # b @ sep # c \<and> sep \<notin> set a \<and> sep \<notin> set b \<and> sep \<notin> set c"
proof
  assume h: "strings_Split s sep = [a, b, c]"
  from strings_Split_join[of sep s] h have "s = a @ sep # b @ sep # c" by simp
  moreover from strings_Split_segments[of a s sep] strings_Split_segments[of b s sep]
    strings_Split_segments[of c s sep] h
  have "sep \<notin> set a" "sep \<notin> set b" "sep \<notin> set c" by auto
  ultimately show "s = a @ sep # b @ sep # c \<and> sep \<notin> set a \<and> sep \<notin> set b \<and> sep \<notin> set c"
    by simp
next
  assume "s = a @ sep # b @ sep # c \<and> sep \<notin> set a \<and> sep \<notin> set b \<and> sep \<notin> set c"
  then show "strings_Split s sep = [a, b, c]"
    by (simp add: strings_Split_append strings_Split_no_sep)
qed

lemma length_two_iff: "length xs = 2 \<and> xs ! 1 = b \<longleftrightarrow> (\<exists>a. xs = [a, b])"
  by (cases xs; cases "tl xs"; cases "tl (tl xs)") auto

lemma length_three_iff: "length xs = 3 \<and> xs ! 2 = c \<longleftrightarrow> (\<exists>a b. xs = [a, b, c])"
  by (cases xs; cases "tl xs"; cases "tl (tl xs)"; cases "tl (tl (tl xs))") auto

lemma sourceFileName_iff:
  "sourceFileName name \<longleftrightarrow>
     length (strings_Split name (CHR ''.'')) = 2 \<and> strings_Split name (CHR ''.'') ! 1 = ''go''"
  unfolding length_two_iff strings_Split_two_iff sourceFileName_def by auto

lemma localeFileName_iff:
  "(\<exists>module. localeFileName name module lang) \<longleftrightarrow>
     length (strings_Split name (CHR ''.'')) = 3 \<and> strings_Split name (CHR ''.'') ! 2 = ''toml'' \<and>
     strings_Split name (CHR ''.'') ! 1 = lang"
proof -
  have "(length (strings_Split name (CHR ''.'')) = 3 \<and> strings_Split name (CHR ''.'') ! 2 = ''toml'') \<and>
     strings_Split name (CHR ''.'') ! 1 = lang \<longleftrightarrow>
     (\<exists>a. strings_Split name (CHR ''.'') = [a, lang, ''toml''])"
    unfolding length_three_iff by auto
  also have "\<dots> \<longleftrightarrow> (\<exists>module. localeFileName name module lang)"
    unfolding strings_Split_three_iff localeFileName_def by auto
  finally show ?thesis by blast
qed

lemma fileLang_Some_iff: "fileLang name = Some lang \<longleftrightarrow> (\<exists>module. localeFileName name module lang)"
  unfolding localeFileName_iff fileLang_def Let_def by auto

lemma fileLang_None_iff: "fileLang name = None \<longleftrightarrow> (\<forall>module lang. \<not> localeFileName name module lang)"
  using fileLang_Some_iff[of name] by (metis option.distinct(1) option.exhaust)

lemma sourceFileName_fileLang: "sourceFileName name \<Longrightarrow> fileLang name = None"
  unfolding sourceFileName_iff fileLang_def Let_def by auto

lemma loadFiles_source:
  "sourceFileName name \<Longrightarrow>
   loadFiles validTag localeDir ((name, content) # rest) cat = loadFiles validTag localeDir rest cat"
  unfolding sourceFileName_iff by (simp add: Let_def)

lemma loadFiles_bad_name:
  "\<not> sourceFileName name \<Longrightarrow> fileLang name = None \<Longrightarrow>
   loadFiles validTag localeDir ((name, content) # rest) cat = Inl (FilenameFormatError name)"
  unfolding sourceFileName_iff fileLang_def by (auto simp: Let_def split: if_splits)

lemma loadFiles_locale:
  assumes "fileLang name = Some lang"
  shows "loadFiles validTag localeDir ((name, content) # rest) cat =
     (if \<not> validTag lang then Inl (InvalidLanguageTag lang)
      else (case content of
              ReadFileError \<Rightarrow> Inl (LoadLocaleFileFailed localeDir name)
            | UnmarshalError \<Rightarrow> Inl (UnmarshalFailed localeDir name)
            | Document doc \<Rightarrow>
                (case recGetMessages lang [] doc (ensureTable lang cat) of
                   Inl e \<Rightarrow> Inl e
                 | Inr cat2 \<Rightarrow> loadFiles validTag localeDir rest cat2)))"
proof -
  from assms have s: "length (strings_Split name (CHR ''.'')) = 3"
    "strings_Split name (CHR ''.'') ! 2 = ''toml''" "strings_Split name (CHR ''.'') ! Suc 0 = lang"
    by (auto simp: fileLang_def Let_def split: if_splits)
  show ?thesis
    by (cases content; cases "map_of cat lang") (simp_all add: Let_def s ensureTable_def)
qed

lemma ensureTable_map_of:
  "\<exists>mp. map_of (ensureTable lang cat) lang = Some mp \<and>
        (case map_of cat lang of None \<Rightarrow> mp = [] | Some mp0 \<Rightarrow> mp = mp0)"
  by (cases "map_of cat lang") (auto simp: ensureTable_def update_conv')

lemma ensureTable_other:
  "l \<noteq> lang \<Longrightarrow> map_of (ensureTable lang cat) l = map_of cat l"
  by (auto simp: ensureTable_def update_conv')

lemma recGetMessages_Inr:
  assumes "map_of cat lang = Some mp"
  shows "recGetMessages lang messageId v cat = Inr cat' \<longleftrightarrow>
           supported v \<and> addable mp (flatten messageId v) \<and>
           cat' = AList.update lang (mp @ newEntries (flatten messageId v)) cat"
  using recGetMessages_rangeData_result(1)[of cat lang v messageId] assms
  by (auto split: if_splits)

lemma recGetMessages_Inl:
  assumes "map_of cat lang = Some mp"
  shows "(\<exists>e. recGetMessages lang messageId v cat = Inl e) \<longleftrightarrow>
           \<not> (supported v \<and> addable mp (flatten messageId v))"
  using recGetMessages_rangeData_result(1)[of cat lang v messageId] assms
  by (auto split: if_splits)

lemma lookup_ensureTable: "lookup (ensureTable lang cat) l k = lookup cat l k"
  by (cases "map_of cat lang") (simp_all add: ensureTable_def lookup_def update_conv')

lemma idSet_ensureTable: "idSet (ensureTable lang cat) = idSet cat"
  by (simp add: idSet_def lookup_ensureTable)

lemma map_of_newEntries_None: "map_of (newEntries F) k = None \<longleftrightarrow> k \<notin> fst ` set F"
  by (simp add: map_of_eq_None_iff)

lemma lookup_update_new:
  "lookup (AList.update lang (mp @ newEntries F) cat) l k =
     (if l = lang then (case map_of mp k of Some m \<Rightarrow> Some m | None \<Rightarrow> map_of (newEntries F) k)
      else lookup cat l k)"
  by (simp add: lookup_def update_conv' map_add_def split: option.splits)

lemma idSet_update:
  assumes "map_of (cat :: 't catalog) lang = Some mp"
  shows "(l, k) \<in> idSet (AList.update lang (mp @ newEntries F) cat) \<longleftrightarrow>
         (l, k) \<in> idSet cat \<or> (l = lang \<and> k \<in> fst ` set F)"
proof -
  have old: "lookup cat lang k = map_of mp k" using assms by (simp add: lookup_def)
  have new: "k \<in> fst ` set F \<longleftrightarrow> map_of (newEntries F :: 't localizer) k \<noteq> None"
    unfolding map_of_newEntries_None by blast
  show ?thesis
  proof (cases "l = lang")
    case True
    show ?thesis
      using new by (cases "map_of mp k") (simp_all add: True idSet_def lookup_update_new old)
  next
    case False
    then show ?thesis by (simp add: idSet_def lookup_update_new)
  qed
qed

lemma addable_idSet:
  assumes "map_of cat lang = Some mp"
  shows "addable mp F \<longleftrightarrow>
     list_all (\<lambda>(k, d). d \<noteq> []) F \<and> distinct (map fst F) \<and>
     (\<forall>k \<in> fst ` set F. (lang, k) \<notin> idSet cat)"
proof -
  have old: "\<And>k. lookup cat lang k = map_of mp k" using assms by (simp add: lookup_def)
  have "list_all (\<lambda>(k, d). map_of mp k = None) F \<longleftrightarrow> (\<forall>k \<in> fst ` set F. map_of mp k = None)"
    unfolding list_all_iff by force
  also have "\<dots> \<longleftrightarrow> (\<forall>k \<in> fst ` set F. (lang, k) \<notin> idSet cat)"
    by (simp add: idSet_def old)
  finally show ?thesis unfolding addable_def by blast
qed

lemma distinct_fileIds:
  "distinct (map (\<lambda>(k, d). (lang, k)) F) \<longleftrightarrow> distinct (map fst F)"
proof -
  have "map (\<lambda>(k, d). (lang, k)) F = map (Pair lang) (map fst F)" by (induction F) auto
  then show ?thesis by (simp add: distinct_map inj_on_def)
qed

lemma set_fileIds: "set (map (\<lambda>(k, d). (lang, k)) F) = Pair lang ` fst ` set F"
  by (induction F) auto

declare loadFiles.simps(2) [simp del]

lemma allIds_Cons: "allIds (e # rest) = fileIds e @ allIds rest"
  by (simp add: allIds_def)

lemma loadable_Nil: "loadable validTag cat []"
  by (simp add: loadable_def allIds_def)

lemma loadable_no_ids:
  "fileIds e = [] \<Longrightarrow>
   loadable validTag cat (e # rest) \<longleftrightarrow> \<not> fileFails validTag e \<and> loadable validTag cat rest"
  by (simp add: loadable_def allIds_Cons)

lemma loadable_Document:
  assumes lang: "fileLang name = Some lang" and src: "\<not> sourceFileName name" and v: "validTag lang"
    and mp: "map_of (cat1 :: 't catalog) lang = Some mp" and ids: "idSet cat1 = idSet cat"
  shows "loadable validTag cat ((name, Document doc) # rest) \<longleftrightarrow>
         supported doc \<and> addable mp (flatten [] doc) \<and>
         loadable validTag (AList.update lang (mp @ newEntries (flatten [] doc)) cat1) rest"
proof -
  let ?F = "flatten [] doc"
  let ?U = "AList.update lang (mp @ newEntries ?F) cat1"
  have f: "fileIds (name, Document doc) = map (\<lambda>(k, d). (lang, k)) ?F" using lang by simp
  have ff: "fileFails validTag (name, Document doc) \<longleftrightarrow>
            \<not> supported doc \<or> \<not> list_all (\<lambda>(k, d). d \<noteq> []) ?F"
    using lang src v by simp
  have U: "\<And>i. i \<in> idSet ?U \<longleftrightarrow> i \<in> idSet cat \<or> i \<in> Pair lang ` fst ` set ?F"
  proof -
    fix i :: "string \<times> string"
    obtain l k where i: "i = (l, k)" by (cases i)
    show "i \<in> idSet ?U \<longleftrightarrow> i \<in> idSet cat \<or> i \<in> Pair lang ` fst ` set ?F"
      unfolding i idSet_update[OF mp] ids by blast
  qed
  have A: "addable mp ?F \<longleftrightarrow>
     list_all (\<lambda>(k, d). d \<noteq> []) ?F \<and> distinct (map fst ?F) \<and>
     (\<forall>i \<in> Pair lang ` fst ` set ?F. i \<notin> idSet cat)"
    unfolding addable_idSet[OF mp] ids by blast
  have D: "distinct (fileIds (name, Document doc) @ allIds rest) \<longleftrightarrow>
     distinct (map fst ?F) \<and> distinct (allIds rest) \<and>
     (\<forall>i \<in> set (allIds rest). i \<notin> Pair lang ` fst ` set ?F)"
    unfolding f distinct_append distinct_fileIds set_fileIds by blast
  have S: "set (fileIds (name, Document doc) @ allIds rest) =
           Pair lang ` fst ` set ?F \<union> set (allIds rest)"
    unfolding f set_append set_fileIds ..
  have P: "list_all (\<lambda>e. \<not> fileFails validTag e) ((name, Document doc) # rest) \<longleftrightarrow>
           \<not> fileFails validTag (name, Document doc) \<and>
           list_all (\<lambda>e. \<not> fileFails validTag e) rest"
    by simp
  show ?thesis
    unfolding loadable_def allIds_Cons P D S ff A U by blast
qed

lemma loadFiles_Inr_iff:
  "(\<exists>cat'. loadFiles validTag localeDir fileInfos (cat :: 't catalog) = Inr cat') \<longleftrightarrow>
   loadable validTag cat fileInfos"
proof (induction fileInfos arbitrary: cat)
  case Nil
  show ?case by (simp add: loadable_Nil)
next
  case (Cons e rest)
  obtain name content where e: "e = (name, content)" by (cases e)
  show ?case
  proof (cases "sourceFileName name")
    case True
    then have "fileIds e = []" "\<not> fileFails validTag e"
      using sourceFileName_fileLang[OF True] by (cases content; simp add: e)+
    then show ?thesis
      using Cons.IH[of cat] loadFiles_source[OF True, of validTag localeDir content rest cat]
        loadable_no_ids[of e validTag cat rest]
      by (simp add: e)
  next
    case src: False
    show ?thesis
    proof (cases "fileLang name")
      case None
      then have "fileFails validTag e" using src by (simp add: e)
      then have "\<not> loadable validTag cat (e # rest)" by (simp add: loadable_def)
      then show ?thesis using loadFiles_bad_name[OF src None, of validTag localeDir content rest cat] by (simp add: e)
    next
      case (Some lang)
      note step = loadFiles_locale[OF Some, of validTag localeDir content rest cat]
      show ?thesis
      proof (cases "validTag lang")
        case False
        then have "fileFails validTag e" using src Some by (simp add: e)
        then have "\<not> loadable validTag cat (e # rest)" by (simp add: loadable_def)
        then show ?thesis using step False by (simp add: e)
      next
        case v: True
        show ?thesis
        proof (cases content)
          case ReadFileError
          then have "fileFails validTag e" using src Some by (simp add: e)
          then have "\<not> loadable validTag cat (e # rest)" by (simp add: loadable_def)
          then show ?thesis using step v ReadFileError by (simp add: e)
        next
          case UnmarshalError
          then have "fileFails validTag e" using src Some by (simp add: e)
          then have "\<not> loadable validTag cat (e # rest)" by (simp add: loadable_def)
          then show ?thesis using step v UnmarshalError by (simp add: e)
        next
          case (Document doc)
          let ?cat1 = "ensureTable lang cat"
          let ?F = "flatten [] doc"
          from ensureTable_map_of[of lang cat] obtain mp where
            mp: "map_of ?cat1 lang = Some mp" by blast
          let ?U = "AList.update lang (mp @ newEntries ?F) ?cat1"
          have L: "loadable validTag cat (e # rest) \<longleftrightarrow>
                   supported doc \<and> addable mp ?F \<and> loadable validTag ?U rest"
            unfolding e Document
            using loadable_Document[where validTag = validTag, OF Some src _ mp idSet_ensureTable[of lang cat], of doc rest] v
            by blast
          have st: "loadFiles validTag localeDir (e # rest) cat =
                (case recGetMessages lang [] doc ?cat1 of
                   Inl e \<Rightarrow> Inl e
                 | Inr cat2 \<Rightarrow> loadFiles validTag localeDir rest cat2)"
            using step v Document by (simp add: e)
          show ?thesis
          proof (cases "supported doc \<and> addable mp ?F")
            case True
            then have "recGetMessages lang [] doc ?cat1 = Inr ?U"
              using recGetMessages_Inr[OF mp, of "[]" doc ?U] by simp
            then show ?thesis using st L True Cons.IH[of ?U] by simp
          next
            case False
            then obtain err where "recGetMessages lang [] doc ?cat1 = Inl err"
              using recGetMessages_Inl[OF mp, of "[]" doc] by blast
            then have "\<not> (\<exists>cat'. loadFiles validTag localeDir (e # rest) cat = Inr cat')"
              using st by simp
            moreover have "\<not> loadable validTag cat (e # rest)" using L False by blast
            ultimately show ?thesis by blast
          qed
        qed
      qed
    qed
  qed
qed

lemma loadFiles_Cons_Inr:
  assumes "loadFiles validTag localeDir ((name, content) # rest) (cat :: 't catalog) = Inr cat'"
  shows "(fileLang name = None \<and> sourceFileName name \<and> loadFiles validTag localeDir rest cat = Inr cat') \<or>
         (\<exists>lang doc mp. fileLang name = Some lang \<and> validTag lang \<and> content = Document doc \<and>
            map_of (ensureTable lang cat) lang = Some mp \<and>
            supported doc \<and> addable mp (flatten [] doc) \<and>
            loadFiles validTag localeDir rest
              (AList.update lang (mp @ newEntries (flatten [] doc)) (ensureTable lang cat)) = Inr cat')"
proof (cases "sourceFileName name")
  case True
  with assms loadFiles_source[OF True, of validTag localeDir content rest cat]
    sourceFileName_fileLang[OF True] show ?thesis by simp
next
  case src: False
  show ?thesis
  proof (cases "fileLang name")
    case None
    with assms loadFiles_bad_name[OF src None, of validTag localeDir content rest cat] show ?thesis by simp
  next
    case (Some lang)
    note step = loadFiles_locale[OF Some, of validTag localeDir content rest cat]
    from assms step have v: "validTag lang" by (auto split: if_splits)
    from assms step v obtain doc where doc: "content = Document doc"
      by (cases content) auto
    from ensureTable_map_of[of lang cat] obtain mp where
      mp: "map_of (ensureTable lang cat) lang = Some mp" by blast
    from assms step v doc obtain cat2 where
      r: "recGetMessages lang [] doc (ensureTable lang cat) = Inr cat2" and
      l: "loadFiles validTag localeDir rest cat2 = Inr cat'"
      by (auto split: sum.splits)
    from r recGetMessages_Inr[OF mp, of "[]" doc cat2]
    have "supported doc" "addable mp (flatten [] doc)"
      "cat2 = AList.update lang (mp @ newEntries (flatten [] doc)) (ensureTable lang cat)"
      by simp_all
    with Some v doc mp l show ?thesis by blast
  qed
qed

lemma newly_loaded_ensureTable:
  "newly_loaded cat \<Longrightarrow> newly_loaded (ensureTable lang cat)"
proof (cases "map_of cat lang")
  case None
  assume n: "newly_loaded cat"
  have s: "set (AList.update lang [] cat) \<subseteq> insert (lang, []) (set cat)"
    by (rule set_update_subset)
  from n have "distinct (map fst (AList.update lang [] cat))"
    by (simp add: newly_loaded_def wf_catalog_def distinct_update)
  with n s None show ?thesis
    unfolding newly_loaded_def wf_catalog_def ensureTable_def list_all_iff by fastforce
next
  case (Some a)
  assume "newly_loaded cat"
  with Some show ?thesis by (simp add: ensureTable_def)
qed

lemma newly_loaded_update:
  assumes n: "newly_loaded (cat :: 't catalog)" and mp: "map_of cat lang = Some mp"
    and a: "addable mp F"
  shows "newly_loaded (AList.update lang (mp @ newEntries F) cat)"
proof -
  let ?mp' = "mp @ (newEntries F :: 't localizer)"
  from mp have in_cat: "(lang, mp) \<in> set cat" by (rule map_of_SomeD)
  with n have dmp: "distinct (map fst mp)"
    and ok_mp: "\<forall>(k, m) \<in> set mp. Data m \<noteq> [] \<and> \<not> parseOnce m \<and> parsedTemplate m = None"
    unfolding newly_loaded_def wf_catalog_def list_all_iff by auto
  from a have nonempty: "\<forall>(k, d) \<in> set F. d \<noteq> []" and dF: "distinct (map fst F)"
    and disj: "\<forall>(k, d) \<in> set F. map_of mp k = None"
    unfolding addable_def list_all_iff by auto
  from disj have "fst ` set mp \<inter> fst ` set F = {}"
    unfolding map_of_eq_None_iff by fastforce
  with dmp dF have d': "distinct (map fst ?mp')" by simp
  have ok_new: "\<forall>(k, m) \<in> set (newEntries F :: 't localizer).
      Data m \<noteq> [] \<and> \<not> parseOnce m \<and> parsedTemplate m = None"
    using nonempty unfolding newEntries_def by auto
  from ok_mp ok_new have ok': "\<forall>(k, m) \<in> set ?mp'.
      Data m \<noteq> [] \<and> \<not> parseOnce m \<and> parsedTemplate m = None" by auto
  have s: "set (AList.update lang ?mp' cat) \<subseteq> insert (lang, ?mp') (set cat)"
    by (rule set_update_subset)
  from n have dc: "distinct (map fst (AList.update lang ?mp' cat))"
    by (simp add: newly_loaded_def wf_catalog_def distinct_update)
  show ?thesis
    unfolding newly_loaded_def wf_catalog_def list_all_iff
  proof (intro conjI ballI)
    show "distinct (map fst (AList.update lang ?mp' cat))" by (rule dc)
  next
    fix x assume "x \<in> set (AList.update lang ?mp' cat)"
    with s have "x = (lang, ?mp') \<or> x \<in> set cat" by auto
    with d' n show "case x of (lang, mp) \<Rightarrow> distinct (map fst mp)"
      unfolding newly_loaded_def wf_catalog_def list_all_iff by auto
  next
    fix x assume "x \<in> set (AList.update lang ?mp' cat)"
    with s have "x = (lang, ?mp') \<or> x \<in> set cat" by auto
    with ok' n show "case x of (lang, mp) \<Rightarrow>
        \<forall>x\<in>set mp. case x of (k, m) \<Rightarrow> Data m \<noteq> [] \<and> \<not> parseOnce m \<and> parsedTemplate m = None"
      unfolding newly_loaded_def wf_catalog_def list_all_iff by auto
  qed
qed

lemma loadFiles_newly_loaded:
  "loadFiles validTag localeDir fileInfos cat = Inr cat' \<Longrightarrow> newly_loaded cat \<Longrightarrow> newly_loaded cat'"
proof (induction fileInfos arbitrary: cat)
  case Nil
  then show ?case by simp
next
  case (Cons e rest)
  obtain name content where e: "e = (name, content)" by (cases e)
  from loadFiles_Cons_Inr[OF Cons.prems(1)[unfolded e]]
  show ?case
  proof (elim disjE conjE exE)
    assume "loadFiles validTag localeDir rest cat = Inr cat'"
    with Cons show ?thesis by blast
  next
    fix lang doc mp
    assume mp: "map_of (ensureTable lang cat) lang = Some mp"
      and a: "addable mp (flatten [] doc)"
      and l: "loadFiles validTag localeDir rest
              (AList.update lang (mp @ newEntries (flatten [] doc)) (ensureTable lang cat)) = Inr cat'"
    from newly_loaded_update[OF newly_loaded_ensureTable[OF Cons.prems(2)] mp a]
    show ?thesis using Cons.IH[OF l] by blast
  qed
qed

lemma newly_loaded_Nil: "newly_loaded []"
  by (simp add: newly_loaded_def wf_catalog_def)

lemma newly_loaded_catalog_ok: "newly_loaded cat \<Longrightarrow> catalog_ok parse cat"
  unfolding newly_loaded_def catalog_ok_def list_all_iff slot_ok_def by fastforce

lemma flattenEntries_mem:
  "(k, v) \<in> set data \<Longrightarrow>
   x \<in> set (flatten (if messageId \<noteq> [] then messageId @ ''.'' @ k else k) v) \<Longrightarrow>
   x \<in> set (flattenEntries messageId data)"
  by (induction data) auto

lemma leafAt_flatten:
  "leafAt ks v s \<Longrightarrow> (pathId messageId ks, s) \<in> set (flatten messageId v)"
proof (induction ks arbitrary: v messageId)
  case Nil
  then show ?case by simp
next
  case (Cons k ks)
  from Cons.prems obtain data where v: "v = Table data" by (cases v) auto
  with Cons.prems obtain v' where m: "(k, v') \<in> set data" and l: "leafAt ks v' s"
    by (auto simp: list_ex_iff)
  let ?id = "if messageId \<noteq> [] then messageId @ ''.'' @ k else k"
  from Cons.IH[OF l, of ?id] have "(pathId ?id ks, s) \<in> set (flatten ?id v')" .
  from flattenEntries_mem[OF m this] show ?case by (simp add: v)
qed

lemma pathId_nonempty:
  "messageId \<noteq> [] \<Longrightarrow> pathId messageId ks = messageId @ concat (map (\<lambda>k. CHR ''.'' # k) ks)"
  by (induction ks arbitrary: messageId) auto

lemma joinSegments_Cons:
  "joinSegments sep (k # ks) = k @ concat (map (\<lambda>k. sep # k) ks)"
  by (induction ks arbitrary: k) auto

lemma pathId_join:
  "k \<noteq> [] \<Longrightarrow> pathId [] (k # ks) = joinSegments (CHR ''.'') (k # ks)"
  by (simp add: pathId_nonempty joinSegments_Cons)

lemma lookup_ensureTable_keep: "lookup cat l k = Some m \<Longrightarrow> lookup (ensureTable lang cat) l k = Some m"
  by (simp add: lookup_ensureTable)

lemma map_of_newEntries_Some:
  "distinct (map fst F) \<Longrightarrow> (k, d) \<in> set F \<Longrightarrow> map_of (newEntries F) k = Some (newMessage d)"
  by (induction F) (auto simp: newEntries_def rev_image_eqI)

lemma loadFiles_keeps:
  "loadFiles validTag localeDir fileInfos cat = Inr cat' \<Longrightarrow> lookup cat l k = Some m \<Longrightarrow>
   lookup cat' l k = Some m"
proof (induction fileInfos arbitrary: cat)
  case Nil
  then show ?case by simp
next
  case (Cons e rest)
  obtain name content where e: "e = (name, content)" by (cases e)
  from loadFiles_Cons_Inr[OF Cons.prems(1)[unfolded e]]
  show ?case
  proof (elim disjE conjE exE)
    assume "loadFiles validTag localeDir rest cat = Inr cat'"
    with Cons show ?thesis by blast
  next
    fix lang doc mp
    assume mp: "map_of (ensureTable lang cat) lang = Some mp"
      and load: "loadFiles validTag localeDir rest
              (AList.update lang (mp @ newEntries (flatten [] doc)) (ensureTable lang cat)) = Inr cat'"
    have 1: "lookup (ensureTable lang cat) l k = Some m"
      using Cons.prems(2) by (simp add: lookup_ensureTable)
    have "lookup (AList.update lang (mp @ newEntries (flatten [] doc)) (ensureTable lang cat)) l k
          = Some m"
    proof (cases "l = lang")
      case True
      with 1 mp have "map_of mp k = Some m" by (simp add: lookup_def)
      with True show ?thesis by (simp add: lookup_update_new)
    next
      case False
      with 1 show ?thesis by (simp add: lookup_update_new)
    qed
    from Cons.IH[OF load this] show ?thesis .
  qed
qed

lemma loadFiles_loads:
  "loadFiles validTag localeDir fileInfos cat = Inr cat' \<Longrightarrow> (name, Document doc) \<in> set fileInfos \<Longrightarrow>
   fileLang name = Some lang \<Longrightarrow> (k, d) \<in> set (flatten [] doc) \<Longrightarrow>
   lookup cat' lang k = Some (newMessage d)"
proof (induction fileInfos arbitrary: cat)
  case Nil
  then show ?case by simp
next
  case (Cons e rest)
  obtain name' content where e: "e = (name', content)" by (cases e)
  from loadFiles_Cons_Inr[OF Cons.prems(1)[unfolded e]]
  show ?case
  proof (elim disjE conjE exE)
    assume n: "fileLang name' = None" and l: "loadFiles validTag localeDir rest cat = Inr cat'"
    from n Cons.prems(2,3) e have "(name, Document doc) \<in> set rest" by auto
    from Cons.IH[OF l this Cons.prems(3,4)] show ?thesis .
  next
    fix lang' doc' mp
    assume fl: "fileLang name' = Some lang'" and c: "content = Document doc'"
      and mp: "map_of (ensureTable lang' cat) lang' = Some mp"
      and a: "addable mp (flatten [] doc')"
      and load: "loadFiles validTag localeDir rest
              (AList.update lang' (mp @ newEntries (flatten [] doc')) (ensureTable lang' cat)) = Inr cat'"
    show ?thesis
    proof (cases "(name, Document doc) \<in> set rest")
      case True
      from Cons.IH[OF load True Cons.prems(3,4)] show ?thesis .
    next
      case False
      with Cons.prems(2) e c have same: "name' = name" "doc' = doc" by auto
      with fl Cons.prems(3) have lang: "lang' = lang" by simp
      from a have dF: "distinct (map fst (flatten [] doc))" and
        none: "map_of mp k = None"
        using Cons.prems(4) unfolding addable_def list_all_iff same by auto
      have "lookup (AList.update lang (mp @ newEntries (flatten [] doc)) (ensureTable lang cat)) lang k
            = Some (newMessage d)"
        using none map_of_newEntries_Some[OF dF Cons.prems(4)] by (simp add: lookup_update_new)
      from loadFiles_keeps[OF load[unfolded same lang] this] show ?thesis .
    qed
  qed
qed

lemma leafError_append1:
  "leafError mp A ok err \<Longrightarrow> leafError mp (A @ B) (ok \<and> ok') err"
  by (cases err) auto

lemma map_of_newEntries_SomeD:
  "map_of (newEntries F) k = Some m \<Longrightarrow> (k, Data m) \<in> set F"
  by (induction F) (auto simp: newEntries_def split: if_splits)

lemma leafError_append2:
  assumes "leafError (mp @ newEntries A) B ok' err"
  shows "leafError mp (A @ B) (ok \<and> ok') err"
proof (cases err)
  case (AlreadyExist k old new)
  with assms have n: "(k, new) \<in> set B"
    and o: "(\<exists>m. map_of (mp @ newEntries A) k = Some m \<and> Data m = old) \<or> (k, old) \<in> set B"
    by auto
  from o have "(\<exists>m. map_of mp k = Some m \<and> Data m = old) \<or> (k, old) \<in> set A \<or> (k, old) \<in> set B"
  proof
    assume "\<exists>m. map_of (mp @ newEntries A) k = Some m \<and> Data m = old"
    then obtain m where m: "map_of (mp @ newEntries A) k = Some m" "Data m = old" by blast
    show ?thesis
    proof (cases "map_of mp k")
      case None
      with m have "map_of (newEntries A) k = Some m" by (simp add: map_add_def)
      from map_of_newEntries_SomeD[OF this] m show ?thesis by auto
    next
      case (Some a)
      with m show ?thesis by (auto simp: map_add_def)
    qed
  qed simp
  with n AlreadyExist show ?thesis by auto
qed (use assms in auto)

lemma recGetMessages_rangeData_error:
  "(\<forall>mp err. map_of (cat :: 't catalog) lang = Some mp \<longrightarrow>
      recGetMessages lang messageId v cat = Inl err \<longrightarrow>
      leafError mp (flatten messageId v) (supported v) err)"
  "(\<forall>mp err. map_of (cat :: 't catalog) lang = Some mp \<longrightarrow>
      rangeData lang messageId kvs cat = Inl err \<longrightarrow>
      leafError mp (flattenEntries messageId kvs) (supportedEntries kvs) err)"
proof (induction lang messageId v cat and lang messageId kvs cat
       rule: recGetMessages_rangeData.induct)
  case (1 lang messageId data cat)
  show ?case by (auto split: if_splits option.splits)
next
  case (2 lang messageId data cat)
  then show ?case by simp
next
  case (3 lang messageId cat)
  show ?case by simp
next
  case (4 lang messageId cat)
  show ?case by simp
next
  case (5 lang messageId k v rest cat)
  let ?id = "if messageId \<noteq> [] then messageId @ ''.'' @ k else k"
  let ?A = "flatten ?id v" and ?B = "flattenEntries messageId rest"
  show ?case
  proof (intro allI impI)
    fix mp err
    assume mp: "map_of cat lang = Some mp"
      and f: "rangeData lang messageId ((k, v) # rest) cat = Inl err"
    show "leafError mp (flattenEntries messageId ((k, v) # rest)) (supportedEntries ((k, v) # rest)) err"
    proof (cases "recGetMessages lang ?id v cat")
      case (Inl e)
      with f have "e = err" by simp
      with "5.IH"(1) mp Inl have "leafError mp ?A (supported v) err" by blast
      from leafError_append1[OF this, of ?B "supportedEntries rest"] show ?thesis by simp
    next
      case (Inr cat1)
      from Inr recGetMessages_Inr[OF mp, of ?id v cat1]
      have c1: "cat1 = AList.update lang (mp @ newEntries ?A) cat" by simp
      then have mp1: "map_of cat1 lang = Some (mp @ newEntries ?A)" by (simp add: update_conv')
      from f Inr have "rangeData lang messageId rest cat1 = Inl err" by simp
      with "5.IH"(2)[OF Inr] mp1
      have "leafError (mp @ newEntries ?A) ?B (supportedEntries rest) err" by blast
      from leafError_append2[OF this, of "supported v"] show ?thesis by simp
    qed
  qed
qed

lemma duplicateError_Cons:
  "duplicateError cat rest err \<Longrightarrow> duplicateError cat (e # rest) err"
  unfolding duplicateError_def by (elim exE conjE disjE) (simp; blast)+

lemma duplicateError_later:
  assumes d: "duplicateError (AList.update lang (mp @ newEntries (flatten [] doc)) (ensureTable lang cat))
               rest err"
    and mp: "map_of (ensureTable lang (cat :: 't catalog)) lang = Some mp"
    and fl: "fileLang name = Some lang"
  shows "duplicateError cat ((name, Document doc) # rest) err"
proof -
  let ?U = "AList.update lang (mp @ newEntries (flatten [] doc)) (ensureTable lang cat)"
  from d obtain k old new lang2 name2 doc2 where
    err: "err = AlreadyExist k old new" and in2: "(name2, Document doc2) \<in> set rest"
    and fl2: "fileLang name2 = Some lang2" and new: "(k, new) \<in> set (flatten [] doc2)"
    and old: "(\<exists>m. lookup ?U lang2 k = Some m \<and> Data m = old) \<or>
         (\<exists>name' doc'. (name', Document doc') \<in> set rest \<and> fileLang name' = Some lang2 \<and>
                        (k, old) \<in> set (flatten [] doc'))"
    unfolding duplicateError_def by blast
  have "(\<exists>m. lookup cat lang2 k = Some m \<and> Data m = old) \<or>
         (\<exists>name' doc'. (name', Document doc') \<in> set ((name, Document doc) # rest) \<and>
                        fileLang name' = Some lang2 \<and> (k, old) \<in> set (flatten [] doc'))"
    using old
  proof
    assume "\<exists>m. lookup ?U lang2 k = Some m \<and> Data m = old"
    then obtain m where m: "lookup ?U lang2 k = Some m" "Data m = old" by blast
    show ?thesis
    proof (cases "lang2 = lang")
      case False
      with m have "lookup cat lang2 k = Some m"
        by (simp add: lookup_update_new lookup_ensureTable)
      with m show ?thesis by blast
    next
      case True
      show ?thesis
      proof (cases "map_of mp k")
        case None
        with m True have "map_of (newEntries (flatten [] doc) :: 't localizer) k = Some m"
          by (simp add: lookup_update_new)
        from map_of_newEntries_SomeD[OF this] m have "(k, old) \<in> set (flatten [] doc)" by simp
        with fl True show ?thesis by auto
      next
        case (Some a)
        with m True have "a = m" by (simp add: lookup_update_new)
        with Some mp have "lookup (ensureTable lang cat) lang k = Some m" by (simp add: lookup_def)
        then have "lookup cat lang2 k = Some m" by (simp add: lookup_ensureTable True)
        with m show ?thesis by blast
      qed
    qed
  next
    assume "\<exists>name' doc'. (name', Document doc') \<in> set rest \<and> fileLang name' = Some lang2 \<and>
                        (k, old) \<in> set (flatten [] doc')"
    then show ?thesis by auto
  qed
  moreover have "(name2, Document doc2) \<in> set ((name, Document doc) # rest)"
    using in2 by simp
  ultimately show ?thesis unfolding duplicateError_def using err fl2 new by blast
qed

lemma loadFiles_error:
  "loadFiles validTag localeDir fileInfos (cat :: 't catalog) = Inl err \<Longrightarrow>
   (\<exists>e \<in> set fileInfos. fileError validTag localeDir e err) \<or> duplicateError cat fileInfos err"
proof (induction fileInfos arbitrary: cat)
  case Nil
  then show ?case by simp
next
  case (Cons e rest)
  obtain name content where e: "e = (name, content)" by (cases e)
  note f = Cons.prems[unfolded e]
  show ?case
  proof (cases "sourceFileName name")
    case True
    with f loadFiles_source[OF True, of validTag localeDir content rest cat]
    have "loadFiles validTag localeDir rest cat = Inl err" by simp
    from Cons.IH[OF this] show ?thesis using duplicateError_Cons[of cat rest err e] by auto
  next
    case src: False
    show ?thesis
    proof (cases "fileLang name")
      case None
      with f loadFiles_bad_name[OF src None, of validTag localeDir content rest cat]
      have "fileError validTag localeDir e err" using src by (simp add: e)
      then show ?thesis by simp
    next
      case (Some lang)
      note step = loadFiles_locale[OF Some, of validTag localeDir content rest cat]
      show ?thesis
      proof (cases "validTag lang")
        case False
        with f step have "fileError validTag localeDir e err" using src Some by (simp add: e)
        then show ?thesis by simp
      next
        case v: True
        show ?thesis
        proof (cases content)
          case ReadFileError
          with f step v have "fileError validTag localeDir e err" using src Some by (simp add: e)
          then show ?thesis by simp
        next
          case UnmarshalError
          with f step v have "fileError validTag localeDir e err" using src Some by (simp add: e)
          then show ?thesis by simp
        next
          case (Document doc)
          from ensureTable_map_of[of lang cat] obtain mp where
            mp: "map_of (ensureTable lang cat) lang = Some mp" by blast
          show ?thesis
          proof (cases "recGetMessages lang [] doc (ensureTable lang cat)")
            case (Inl err')
            with f step v Document have "err' = err" by simp
            with Inl recGetMessages_rangeData_error(1)[of "ensureTable lang cat" lang "[]" doc] mp
            have le: "leafError mp (flatten [] doc) (supported doc) err" by blast
            show ?thesis
            proof (cases err)
              case UnsupportedDataFormat
              with le have "fileError validTag localeDir e err" using src Some v Document by (simp add: e)
              then show ?thesis by simp
            next
              case (EmptyString k)
              with le have "fileError validTag localeDir e err" using src Some v Document by (simp add: e)
              then show ?thesis by simp
            next
              case (AlreadyExist k old new)
              with le have n: "(k, new) \<in> set (flatten [] doc)"
                and o: "(\<exists>m. map_of mp k = Some m \<and> Data m = old) \<or> (k, old) \<in> set (flatten [] doc)"
                by auto
              from o have "(\<exists>m. lookup cat lang k = Some m \<and> Data m = old) \<or>
                           (k, old) \<in> set (flatten [] doc)"
              proof
                assume "\<exists>m. map_of mp k = Some m \<and> Data m = old"
                then obtain m where "map_of mp k = Some m" "Data m = old" by blast
                with mp have "lookup (ensureTable lang cat) lang k = Some m" "Data m = old"
                  by (simp_all add: lookup_def)
                then show ?thesis by (auto simp: lookup_ensureTable)
              qed simp
              moreover have "(name, Document doc) \<in> set (e # rest)" by (simp add: e Document)
              ultimately have "duplicateError cat (e # rest) err"
                unfolding duplicateError_def using n AlreadyExist Some by blast
              then show ?thesis by simp
            qed (use le in auto)
          next
            case (Inr cat2)
            from Inr recGetMessages_Inr[OF mp, of "[]" doc cat2]
            have c2: "cat2 = AList.update lang (mp @ newEntries (flatten [] doc)) (ensureTable lang cat)"
              by simp
            from f step v Document Inr have "loadFiles validTag localeDir rest cat2 = Inl err" by simp
            from Cons.IH[OF this]
            show ?thesis
            proof
              assume "\<exists>e\<in>set rest. fileError validTag localeDir e err"
              then show ?thesis by auto
            next
              assume "duplicateError cat2 rest err"
              from duplicateError_later[OF this[unfolded c2] mp Some]
              show ?thesis by (simp add: e Document)
            qed
          qed
        qed
      qed
    qed
  qed
qed

lemma localeFileName_not_source: "localeFileName name module lang \<Longrightarrow> \<not> sourceFileName name"
  using sourceFileName_fileLang[of name] fileLang_Some_iff[of name lang] by auto

lemma fileFails_iff:
  "fileFails validTag (name, content) \<longleftrightarrow>
     (\<not> sourceFileName name \<and> (\<forall>module lang. \<not> localeFileName name module lang)) \<or>
     (\<exists>module lang. localeFileName name module lang \<and>
        (\<not> validTag lang \<or> content = ReadFileError \<or> content = UnmarshalError \<or>
         (\<exists>doc. content = Document doc \<and>
            (\<not> supported doc \<or> (\<exists>k. (k, []) \<in> set (flatten [] doc))))))"
proof (cases "fileLang name")
  case None
  then show ?thesis using fileLang_None_iff[of name] by simp
next
  case (Some lang)
  then obtain module where m: "localeFileName name module lang"
    using fileLang_Some_iff[of name lang] by blast
  have u: "\<And>module' lang'. localeFileName name module' lang' \<Longrightarrow> lang' = lang"
    using fileLang_Some_iff[of name] Some by (metis option.inject)
  have e: "\<And>doc. \<not> list_all (\<lambda>(k, d). d \<noteq> []) (flatten [] doc) \<longleftrightarrow>
                 (\<exists>k. (k, []) \<in> set (flatten [] doc))"
    unfolding list_all_iff by auto
  have "fileFails validTag (name, content) \<longleftrightarrow>
     (\<not> validTag lang \<or> content = ReadFileError \<or> content = UnmarshalError \<or>
         (\<exists>doc. content = Document doc \<and>
            (\<not> supported doc \<or> (\<exists>k. (k, []) \<in> set (flatten [] doc)))))"
    using localeFileName_not_source[OF m] Some by (cases content) (simp_all add: e)
  then show ?thesis using m u by blast
qed

lemma idSet_Nil: "idSet [] = {}"
  by (simp add: idSet_def lookup_def)

lemma some_file_fails_iff:
  "(\<exists>name content. (name, content) \<in> set fileInfos \<and> fileFails validTag (name, content)) \<longleftrightarrow>
   fileTriggers validTag fileInfos"
  (is "?L \<longleftrightarrow> ?R")
proof
  assume ?L
  then obtain name content where i: "(name, content) \<in> set fileInfos"
    and f: "fileFails validTag (name, content)" by blast
  from f[unfolded fileFails_iff] show ?R
  proof (elim disjE exE conjE)
    assume "\<not> sourceFileName name" "\<forall>module lang. \<not> localeFileName name module lang"
    with i have "\<exists>name content. (name, content) \<in> set fileInfos \<and> \<not> sourceFileName name \<and>
        (\<forall>module lang. \<not> localeFileName name module lang)" by blast
    then show ?R unfolding fileTriggers_def by simp
  next
    fix module lang assume "localeFileName name module lang" "\<not> validTag lang"
    with i have "\<exists>name content module lang. (name, content) \<in> set fileInfos \<and>
        localeFileName name module lang \<and> \<not> validTag lang" by blast
    then show ?R unfolding fileTriggers_def by simp
  next
    fix module lang assume "localeFileName name module lang" "content = ReadFileError"
    with i have "\<exists>name module lang. (name, ReadFileError) \<in> set fileInfos \<and> localeFileName name module lang" by blast
    then show ?R unfolding fileTriggers_def by simp
  next
    fix module lang assume "localeFileName name module lang" "content = UnmarshalError"
    with i have "\<exists>name module lang. (name, UnmarshalError) \<in> set fileInfos \<and> localeFileName name module lang" by blast
    then show ?R unfolding fileTriggers_def by simp
  next
    fix module lang doc
    assume "localeFileName name module lang" "content = Document doc" "\<not> supported doc"
    with i have "\<exists>name module lang doc. (name, Document doc) \<in> set fileInfos \<and>
        localeFileName name module lang \<and> \<not> supported doc" by blast
    then show ?R unfolding fileTriggers_def by simp
  next
    fix module lang doc k
    assume "localeFileName name module lang" "content = Document doc" "(k, []) \<in> set (flatten [] doc)"
    with i have "\<exists>name module lang doc k. (name, Document doc) \<in> set fileInfos \<and>
        localeFileName name module lang \<and> (k, []) \<in> set (flatten [] doc)" by blast
    then show ?R unfolding fileTriggers_def by simp
  qed
next
  assume ?R
  then show ?L unfolding fileTriggers_def
  proof (elim disjE exE conjE)
    fix name content
    assume "(name, content) \<in> set fileInfos" "\<not> sourceFileName name"
      "\<forall>module lang. \<not> localeFileName name module lang"
    then show ?L using fileFails_iff[of validTag name content] by blast
  next
    fix name content module lang
    assume "(name, content) \<in> set fileInfos" "localeFileName name module lang" "\<not> validTag lang"
    then show ?L using fileFails_iff[of validTag name content] by blast
  next
    fix name module lang
    assume "(name, ReadFileError) \<in> set fileInfos" "localeFileName name module lang"
    then show ?L using fileFails_iff[of validTag name ReadFileError] by blast
  next
    fix name module lang
    assume "(name, UnmarshalError) \<in> set fileInfos" "localeFileName name module lang"
    then show ?L using fileFails_iff[of validTag name UnmarshalError] by blast
  next
    fix name module lang doc
    assume "(name, Document doc) \<in> set fileInfos" "localeFileName name module lang" "\<not> supported doc"
    then show ?L using fileFails_iff[of validTag name "Document doc"] by blast
  next
    fix name module lang doc k
    assume "(name, Document doc) \<in> set fileInfos" "localeFileName name module lang"
      "(k, []) \<in> set (flatten [] doc)"
    then show ?L using fileFails_iff[of validTag name "Document doc"] by blast
  qed
qed

lemma loadable_iff_no_trigger:
  "loadable validTag [] fileInfos \<longleftrightarrow> \<not> loadTriggers validTag fileInfos"
proof -
  have "list_all (\<lambda>e. \<not> fileFails validTag e) fileInfos \<longleftrightarrow>
        \<not> (\<exists>name content. (name, content) \<in> set fileInfos \<and> fileFails validTag (name, content))"
    unfolding list_all_iff by (auto simp del: fileFails.simps)
  then show ?thesis
    unfolding loadable_def loadTriggers_def idSet_Nil some_file_fails_iff by simp
qed

lemma joinSegments_ends:
  "\<exists>front. joinSegments sep (k # ks) = front @ last (k # ks)"
proof (induction ks arbitrary: k)
  case Nil
  show ?case by simp
next
  case (Cons a ks)
  from Cons[of a] obtain front where "joinSegments sep (a # ks) = front @ last (a # ks)" by blast
  then have "joinSegments sep (k # a # ks) = (k @ sep # front) @ last (k # a # ks)" by simp
  then show ?case by blast
qed

lemma firstConflict_append1:
  "firstConflict mp A k old new \<Longrightarrow> firstConflict mp (A @ B) k old new"
  unfolding firstConflict_def by (elim exE conjE) (metis append_Cons append_assoc)

lemma firstConflict_append2:
  assumes "addable mp A" and "firstConflict (mp @ newEntries A) B k old new"
  shows "firstConflict mp (A @ B) k old new"
proof -
  from assms(2) obtain F1 F2 m where b: "B = F1 @ (k, new) # F2"
    and a: "addable (mp @ newEntries A) F1"
    and m: "map_of ((mp @ newEntries A) @ newEntries F1) k = Some m" "Data m = old"
    unfolding firstConflict_def by blast
  from assms(1) a have "addable mp (A @ F1)" by (simp add: addable_append)
  moreover have "A @ B = (A @ F1) @ (k, new) # F2" using b by simp
  moreover from m have "map_of (mp @ newEntries (A @ F1)) k = Some m" by simp
  ultimately show ?thesis unfolding firstConflict_def using m(2) by blast
qed

lemma recGetMessages_rangeData_conflict:
  "(\<forall>mp. map_of (cat :: 't catalog) lang = Some mp \<longrightarrow>
      recGetMessages lang messageId v cat = Inl (AlreadyExist k old new) \<longrightarrow>
      firstConflict mp (flatten messageId v) k old new)"
  "(\<forall>mp. map_of (cat :: 't catalog) lang = Some mp \<longrightarrow>
      rangeData lang messageId kvs cat = Inl (AlreadyExist k old new) \<longrightarrow>
      firstConflict mp (flattenEntries messageId kvs) k old new)"
proof (induction lang messageId v cat and lang messageId kvs cat
       rule: recGetMessages_rangeData.induct)
  case (1 lang messageId data cat)
  show ?case
  proof (intro allI impI)
    fix mp assume mp: "map_of cat lang = Some mp"
      and f: "recGetMessages lang messageId (Str data) cat = Inl (AlreadyExist k old new)"
    from f mp obtain m where "map_of mp messageId = Some m" "k = messageId" "old = Data m" "new = data"
      by (auto split: if_splits option.splits)
    then have "flatten messageId (Str data) = [] @ (k, new) # []" "addable mp []"
      "map_of (mp @ newEntries []) k = Some m" "Data m = old"
      by (simp_all add: addable_def)
    then show "firstConflict mp (flatten messageId (Str data)) k old new"
      unfolding firstConflict_def by blast
  qed
next
  case (2 lang messageId data cat)
  then show ?case by simp
next
  case (3 lang messageId cat)
  show ?case by simp
next
  case (4 lang messageId cat)
  show ?case by simp
next
  case (5 lang messageId k' v rest cat)
  let ?id = "if messageId \<noteq> [] then messageId @ ''.'' @ k' else k'"
  let ?A = "flatten ?id v" and ?B = "flattenEntries messageId rest"
  show ?case
  proof (intro allI impI)
    fix mp
    assume mp: "map_of cat lang = Some mp"
      and f: "rangeData lang messageId ((k', v) # rest) cat = Inl (AlreadyExist k old new)"
    show "firstConflict mp (flattenEntries messageId ((k', v) # rest)) k old new"
    proof (cases "recGetMessages lang ?id v cat")
      case (Inl e)
      with f have "e = AlreadyExist k old new" by simp
      with "5.IH"(1) mp Inl have "firstConflict mp ?A k old new" by blast
      from firstConflict_append1[OF this, of ?B] show ?thesis by simp
    next
      case (Inr cat1)
      from Inr recGetMessages_Inr[OF mp, of ?id v cat1]
      have c1: "cat1 = AList.update lang (mp @ newEntries ?A) cat" and ad: "addable mp ?A"
        by simp_all
      then have mp1: "map_of cat1 lang = Some (mp @ newEntries ?A)" by (simp add: update_conv')
      from f Inr have "rangeData lang messageId rest cat1 = Inl (AlreadyExist k old new)" by simp
      with "5.IH"(2)[OF Inr] mp1
      have "firstConflict (mp @ newEntries ?A) ?B k old new" by blast
      from firstConflict_append2[OF ad this] show ?thesis by simp
    qed
  qed
qed

lemma loadFiles_Nil_append:
  "loadFiles validTag localeDir pre cat = Inr cat1 \<Longrightarrow>
   loadFiles validTag localeDir (pre @ rest) cat = loadFiles validTag localeDir rest cat1"
proof (induction pre arbitrary: cat)
  case Nil
  then show ?case by simp
next
  case (Cons e pre)
  obtain name content where e: "e = (name, content)" by (cases e)
  from loadFiles_Cons_Inr[OF Cons.prems[unfolded e]]
  show ?case
  proof (elim disjE conjE exE)
    assume s: "sourceFileName name" and l: "loadFiles validTag localeDir pre cat = Inr cat1"
    from Cons.IH[OF l] show ?thesis
      by (simp add: e loadFiles_source[OF s])
  next
    fix lang doc mp
    assume fl: "fileLang name = Some lang" and v: "validTag lang" and c: "content = Document doc"
      and mp: "map_of (ensureTable lang cat) lang = Some mp"
      and ok: "supported doc" "addable mp (flatten [] doc)"
      and l: "loadFiles validTag localeDir pre
                (AList.update lang (mp @ newEntries (flatten [] doc)) (ensureTable lang cat)) = Inr cat1"
    have r: "recGetMessages lang [] doc (ensureTable lang cat) =
          Inr (AList.update lang (mp @ newEntries (flatten [] doc)) (ensureTable lang cat))"
      using recGetMessages_Inr[OF mp, of "[]" doc] ok by simp
    from Cons.IH[OF l] v c r
    show ?thesis by (simp add: e loadFiles_locale[OF fl])
  qed
qed

lemma loadFiles_AlreadyExist:
  "loadFiles validTag localeDir fileInfos (cat :: 't catalog) = Inl (AlreadyExist k old new) \<Longrightarrow>
   \<exists>pre name doc post lang cat1 mp.
     fileInfos = pre @ (name, Document doc) # post \<and> fileLang name = Some lang \<and>
     loadFiles validTag localeDir pre cat = Inr cat1 \<and>
     map_of (ensureTable lang cat1) lang = Some mp \<and>
     firstConflict mp (flatten [] doc) k old new"
proof (induction fileInfos arbitrary: cat)
  case Nil
  then show ?case by simp
next
  case (Cons e rest)
  obtain name content where e: "e = (name, content)" by (cases e)
  note f = Cons.prems[unfolded e]
  have later: "\<exists>pre name doc post lang cat1 mp.
     e # rest = pre @ (name, Document doc) # post \<and> fileLang name = Some lang \<and>
     loadFiles validTag localeDir pre cat = Inr cat1 \<and>
     map_of (ensureTable lang cat1) lang = Some mp \<and>
     firstConflict mp (flatten [] doc) k old new"
    if one: "loadFiles validTag localeDir [e] cat = Inr cat2"
      and r: "loadFiles validTag localeDir rest cat2 = Inl (AlreadyExist k old new)" for cat2
  proof -
    from Cons.IH[OF r] obtain pre name' doc post lang cat1 mp where
      d: "rest = pre @ (name', Document doc) # post" "fileLang name' = Some lang"
      "loadFiles validTag localeDir pre cat2 = Inr cat1"
      "map_of (ensureTable lang cat1) lang = Some mp"
      "firstConflict mp (flatten [] doc) k old new" by blast
    from loadFiles_Nil_append[OF one, of pre] d(3)
    have "loadFiles validTag localeDir (e # pre) cat = Inr cat1" by simp
    moreover have "e # rest = (e # pre) @ (name', Document doc) # post" using d(1) by simp
    ultimately show ?thesis using d(2,4,5) by blast
  qed
  show ?case
  proof (cases "sourceFileName name")
    case True
    have "loadFiles validTag localeDir [e] cat = Inr cat"
      by (simp add: e loadFiles_source[OF True])
    moreover from f have "loadFiles validTag localeDir rest cat = Inl (AlreadyExist k old new)"
      by (simp add: loadFiles_source[OF True])
    ultimately show ?thesis by (rule later)
  next
    case src: False
    show ?thesis
    proof (cases "fileLang name")
      case None
      with f loadFiles_bad_name[OF src None, of validTag localeDir content rest cat]
      show ?thesis by simp
    next
      case (Some lang)
      note step = loadFiles_locale[OF Some, of validTag localeDir content _ cat]
      from ensureTable_map_of[of lang cat] obtain mp where
        mp: "map_of (ensureTable lang cat) lang = Some mp" by blast
      from f step[of rest] obtain doc where doc: "content = Document doc" and v: "validTag lang"
        by (cases content) (auto split: if_splits)
      show ?thesis
      proof (cases "recGetMessages lang [] doc (ensureTable lang cat)")
        case (Inl err')
        with f step[of rest] v doc have "err' = AlreadyExist k old new" by simp
        with Inl recGetMessages_rangeData_conflict(1)[of "ensureTable lang cat" lang "[]" doc k old new] mp
        have "firstConflict mp (flatten [] doc) k old new" by blast
        moreover have "e # rest = [] @ (name, Document doc) # rest" by (simp add: e doc)
        moreover have "loadFiles validTag localeDir [] cat = Inr cat" by simp
        ultimately show ?thesis using Some mp by blast
      next
        case (Inr cat2)
        with step[of "[]"] v doc have "loadFiles validTag localeDir [e] cat = Inr cat2"
          by (simp add: e)
        moreover from f step[of rest] v doc Inr
        have "loadFiles validTag localeDir rest cat2 = Inl (AlreadyExist k old new)" by simp
        ultimately show ?thesis by (rule later)
      qed
    qed
  qed
qed

lemma loadFiles_from:
  "loadFiles validTag localeDir fileInfos (cat :: 't catalog) = Inr cat' \<Longrightarrow>
   lookup cat' l k = Some m \<Longrightarrow>
   lookup cat l k = Some m \<or>
   (\<exists>name doc. (name, Document doc) \<in> set fileInfos \<and> fileLang name = Some l \<and>
      (k, Data m) \<in> set (flatten [] doc))"
proof (induction fileInfos arbitrary: cat)
  case Nil
  then show ?case by simp
next
  case (Cons e rest)
  obtain name content where e: "e = (name, content)" by (cases e)
  from loadFiles_Cons_Inr[OF Cons.prems(1)[unfolded e]]
  show ?case
  proof (elim disjE conjE exE)
    assume "loadFiles validTag localeDir rest cat = Inr cat'"
    from Cons.IH[OF this Cons.prems(2)] show ?thesis by auto
  next
    fix lang doc mp
    assume fl: "fileLang name = Some lang" and c: "content = Document doc"
      and mp: "map_of (ensureTable lang cat) lang = Some mp"
      and l: "loadFiles validTag localeDir rest
                (AList.update lang (mp @ newEntries (flatten [] doc)) (ensureTable lang cat)) = Inr cat'"
    let ?cat2 = "AList.update lang (mp @ newEntries (flatten [] doc)) (ensureTable lang cat)"
    from Cons.IH[OF l Cons.prems(2)]
    show ?thesis
    proof
      assume a: "lookup ?cat2 l k = Some m"
      show ?thesis
      proof (cases "l = lang")
        case False
        with a have "lookup cat l k = Some m" by (simp add: lookup_update_new lookup_ensureTable)
        then show ?thesis by simp
      next
        case True
        show ?thesis
        proof (cases "map_of mp k")
          case None
          with a True have "map_of (newEntries (flatten [] doc) :: 't localizer) k = Some m"
            by (simp add: lookup_update_new)
          from map_of_newEntries_SomeD[OF this] have "(k, Data m) \<in> set (flatten [] doc)" .
          with fl True c show ?thesis by (auto simp: e)
        next
          case (Some m')
          with a True have "m' = m" by (simp add: lookup_update_new)
          with Some mp have "lookup (ensureTable lang cat) lang k = Some m" by (simp add: lookup_def)
          then have "lookup cat l k = Some m" by (simp add: lookup_ensureTable True)
          then show ?thesis by simp
        qed
      qed
    next
      assume "\<exists>name doc. (name, Document doc) \<in> set rest \<and> fileLang name = Some l \<and>
                (k, Data m) \<in> set (flatten [] doc)"
      then show ?thesis by auto
    qed
  qed
qed

lemma allIds_mem:
  "(lang, k) \<in> set (allIds fileInfos) \<Longrightarrow>
   \<exists>name doc d. (name, Document doc) \<in> set fileInfos \<and> fileLang name = Some lang \<and>
      (k, d) \<in> set (flatten [] doc)"
proof -
  assume "(lang, k) \<in> set (allIds fileInfos)"
  then obtain e where e: "e \<in> set fileInfos" "(lang, k) \<in> set (fileIds e)"
    by (auto simp: allIds_def)
  obtain name content where n: "e = (name, content)" by (cases e)
  from e(2) n obtain doc where c: "content = Document doc" by (cases content) auto
  from e(2) n c obtain lang' where fl: "fileLang name = Some lang'"
    by (cases "fileLang name") auto
  from e(2) n c fl have "lang' = lang" "\<exists>d. (k, d) \<in> set (flatten [] doc)" by auto
  with e(1) n c fl show ?thesis by blast
qed

lemma loadFiles_first_duplicate:
  assumes "loadFiles validTag localeDir fileInfos ([] :: 't catalog) = Inl (AlreadyExist k old new)"
  shows "\<exists>pre name doc post lang F1 F2.
     fileInfos = pre @ (name, Document doc) # post \<and> fileLang name = Some lang \<and>
     flatten [] doc = F1 @ (k, new) # F2 \<and>
     distinct (allIds pre @ map (\<lambda>(k', d). (lang, k')) F1) \<and>
     ((k, old) \<in> set F1 \<or>
      (\<exists>name' doc'. (name', Document doc') \<in> set pre \<and> fileLang name' = Some lang \<and>
         (k, old) \<in> set (flatten [] doc')))"
proof -
  from loadFiles_AlreadyExist[OF assms] obtain pre name doc post lang cat1 mp where
    d: "fileInfos = pre @ (name, Document doc) # post" and fl: "fileLang name = Some lang"
    and l: "loadFiles validTag localeDir pre ([] :: 't catalog) = Inr cat1"
    and mp: "map_of (ensureTable lang cat1) lang = Some mp"
    and fc: "firstConflict mp (flatten [] doc) k old new" by blast
  from fc obtain F1 F2 m where F: "flatten [] doc = F1 @ (k, new) # F2"
    and ad: "addable mp F1" and m: "map_of (mp @ newEntries F1) k = Some m" "Data m = old"
    unfolding firstConflict_def by blast
  have tab: "\<And>k'. lookup cat1 lang k' = map_of mp k'"
    using mp lookup_ensureTable[of lang cat1 lang] by (simp add: lookup_def)
  from l have "loadable validTag ([] :: 't catalog) pre"
    using loadFiles_Inr_iff[of validTag localeDir pre "[] :: 't catalog"] by blast
  then have d1: "distinct (allIds pre)" by (simp add: loadable_def)
  from ad have d2: "distinct (map (\<lambda>(k', d). (lang, k')) F1)"
    unfolding distinct_fileIds by (simp add: addable_def)
  have d3: "set (allIds pre) \<inter> set (map (\<lambda>(k', d). (lang, k')) F1) = {}"
  proof (rule ccontr)
    assume "set (allIds pre) \<inter> set (map (\<lambda>(k', d). (lang, k')) F1) \<noteq> {}"
    then obtain k' where in1: "(lang, k') \<in> set (allIds pre)" and in2: "k' \<in> fst ` set F1"
      unfolding set_fileIds by auto
    from allIds_mem[OF in1] obtain name' doc' d' where
      "(name', Document doc') \<in> set pre" "fileLang name' = Some lang"
      "(k', d') \<in> set (flatten [] doc')" by blast
    from loadFiles_loads[OF l this] tab have "map_of mp k' \<noteq> None" by simp
    moreover from ad in2 have "map_of mp k' = None"
      by (auto simp: addable_def list_all_iff)
    ultimately show False by simp
  qed
  from d1 d2 d3 have dist: "distinct (allIds pre @ map (\<lambda>(k', d). (lang, k')) F1)" by simp
  have "(k, old) \<in> set F1 \<or>
      (\<exists>name' doc'. (name', Document doc') \<in> set pre \<and> fileLang name' = Some lang \<and>
         (k, old) \<in> set (flatten [] doc'))"
  proof (cases "map_of mp k")
    case None
    with m have "map_of (newEntries F1 :: 't localizer) k = Some m" by (simp add: map_add_def)
    from map_of_newEntries_SomeD[OF this] m(2) show ?thesis by simp
  next
    case (Some m')
    with m have "m' = m" by (simp add: map_add_def)
    with Some tab have "lookup cat1 lang k = Some m" by simp
    from loadFiles_from[OF l this] m(2) show ?thesis by (simp add: lookup_def)
  qed
  with d fl F dist show ?thesis by blast
qed

text \<open>
  C6. Loading is the part of \<open>RegisterI18n\<close> before the validation: reading the directory and
  the loop over its files, started on the empty catalog. It fails if and only if one of the
  triggers of \<open>loadTriggers\<close> is present: a name that is neither \<^verbatim>\<open><base>.go\<close> (skipped) nor
  \<^verbatim>\<open><module>.<lang>.toml\<close>, an invalid tag, a file that cannot be read or parsed, a leaf
  that is neither a string nor a table, an empty string leaf, or a message id that occurs
  twice for one locale. An unreadable directory fails as well. Without a trigger the loop
  ends with a catalog and \<open>RegisterI18n\<close> goes on to validate it. Every error names its
  trigger. The error for a duplicate is raised at the first leaf, in the order of loading,
  whose id an earlier leaf of the same locale has: the ids of the leaves before it (those of
  the files \<open>pre\<close> and the leaves \<open>F1\<close> of its own file) are pairwise distinct, \<open>new\<close> is the
  content of that leaf, and \<open>old\<close> is the content of the one earlier leaf with its id, which is
  the content stored first.
\<close>

theorem loading_fails_exactly_on_triggers:
  "RegisterI18n validTag localeDir None (cat0 :: 't catalog) = Inl (LoadLocaleDirFailed localeDir) \<and>
   ((\<exists>err. loadFiles validTag localeDir fileInfos ([] :: 't catalog) = Inl err) \<longleftrightarrow>
      loadTriggers validTag fileInfos) \<and>
   (loadTriggers validTag fileInfos \<longrightarrow>
      (\<exists>err. RegisterI18n validTag localeDir (Some fileInfos) ([] :: 't catalog) = Inl err)) \<and>
   (\<not> loadTriggers validTag fileInfos \<longrightarrow>
      (\<exists>cat. loadFiles validTag localeDir fileInfos ([] :: 't catalog) = Inr cat \<and>
         RegisterI18n validTag localeDir (Some fileInfos) [] =
           (case checkLanguageMap cat of Some e \<Rightarrow> Inl e | None \<Rightarrow> Inr cat))) \<and>
   (\<forall>err. loadFiles validTag localeDir fileInfos ([] :: 't catalog) = Inl err \<longrightarrow>
      RegisterI18n validTag localeDir (Some fileInfos) ([] :: 't catalog) = Inl err \<and>
      ((\<exists>e \<in> set fileInfos. fileError validTag localeDir e err) \<or>
       (\<exists>k old new pre name doc post lang F1 F2.
          err = AlreadyExist k old new \<and>
          fileInfos = pre @ (name, Document doc) # post \<and> fileLang name = Some lang \<and>
          flatten [] doc = F1 @ (k, new) # F2 \<and>
          distinct (allIds pre @ map (\<lambda>(k', d). (lang, k')) F1) \<and>
          ((k, old) \<in> set F1 \<or>
           (\<exists>name' doc'. (name', Document doc') \<in> set pre \<and> fileLang name' = Some lang \<and>
              (k, old) \<in> set (flatten [] doc'))))))"
proof -
  let ?load = "loadFiles validTag localeDir fileInfos ([] :: 't catalog)"
  have ok: "(\<exists>cat'. ?load = Inr cat') \<longleftrightarrow> \<not> loadTriggers validTag fileInfos"
    using loadFiles_Inr_iff[of validTag localeDir fileInfos "[] :: 't catalog"]
    by (simp add: loadable_iff_no_trigger)
  have 1: "RegisterI18n validTag localeDir None (cat0 :: 't catalog) = Inl (LoadLocaleDirFailed localeDir)"
    by (simp add: RegisterI18n_def)
  have 2: "(\<exists>err. ?load = Inl err) \<longleftrightarrow> loadTriggers validTag fileInfos"
    using ok by (cases ?load) auto
  have 3: "loadTriggers validTag fileInfos \<longrightarrow>
      (\<exists>err. RegisterI18n validTag localeDir (Some fileInfos) ([] :: 't catalog) = Inl err)"
    using 2 by (auto simp: RegisterI18n_def)
  have 4: "\<not> loadTriggers validTag fileInfos \<longrightarrow>
      (\<exists>cat. ?load = Inr cat \<and>
         RegisterI18n validTag localeDir (Some fileInfos) [] =
           (case checkLanguageMap cat of Some e \<Rightarrow> Inl e | None \<Rightarrow> Inr cat))"
    using ok by (auto simp: RegisterI18n_def)
  have 5: "\<forall>err. ?load = Inl err \<longrightarrow>
      RegisterI18n validTag localeDir (Some fileInfos) ([] :: 't catalog) = Inl err \<and>
      ((\<exists>e \<in> set fileInfos. fileError validTag localeDir e err) \<or>
       (\<exists>k old new pre name doc post lang F1 F2.
          err = AlreadyExist k old new \<and>
          fileInfos = pre @ (name, Document doc) # post \<and> fileLang name = Some lang \<and>
          flatten [] doc = F1 @ (k, new) # F2 \<and>
          distinct (allIds pre @ map (\<lambda>(k', d). (lang, k')) F1) \<and>
          ((k, old) \<in> set F1 \<or>
           (\<exists>name' doc'. (name', Document doc') \<in> set pre \<and> fileLang name' = Some lang \<and>
              (k, old) \<in> set (flatten [] doc')))))"
  proof (intro allI impI conjI)
    fix err assume l: "?load = Inl err"
    then show "RegisterI18n validTag localeDir (Some fileInfos) ([] :: 't catalog) = Inl err"
      by (simp add: RegisterI18n_def)
    from loadFiles_error[OF l]
    show "(\<exists>e \<in> set fileInfos. fileError validTag localeDir e err) \<or>
       (\<exists>k old new pre name doc post lang F1 F2.
          err = AlreadyExist k old new \<and>
          fileInfos = pre @ (name, Document doc) # post \<and> fileLang name = Some lang \<and>
          flatten [] doc = F1 @ (k, new) # F2 \<and>
          distinct (allIds pre @ map (\<lambda>(k', d). (lang, k')) F1) \<and>
          ((k, old) \<in> set F1 \<or>
           (\<exists>name' doc'. (name', Document doc') \<in> set pre \<and> fileLang name' = Some lang \<and>
              (k, old) \<in> set (flatten [] doc'))))"
    proof
      assume "\<exists>e\<in>set fileInfos. fileError validTag localeDir e err"
      then show ?thesis by (rule disjI1)
    next
      assume "duplicateError ([] :: 't catalog) fileInfos err"
      then obtain k old new where e: "err = AlreadyExist k old new"
        unfolding duplicateError_def by blast
      from loadFiles_first_duplicate[OF l[unfolded e]] e
      have "\<exists>k old new pre name doc post lang F1 F2.
          err = AlreadyExist k old new \<and>
          fileInfos = pre @ (name, Document doc) # post \<and> fileLang name = Some lang \<and>
          flatten [] doc = F1 @ (k, new) # F2 \<and>
          distinct (allIds pre @ map (\<lambda>(k', d). (lang, k')) F1) \<and>
          ((k, old) \<in> set F1 \<or>
           (\<exists>name' doc'. (name', Document doc') \<in> set pre \<and> fileLang name' = Some lang \<and>
              (k, old) \<in> set (flatten [] doc')))" by blast
      then show ?thesis by (rule disjI2)
    qed
  qed
  from 1 2 3 4 5 show ?thesis by (intro conjI)
qed

text \<open>
  C5, as the code has it. A string leaf reached through nested tables with the keys
  \<open>k1, ..., kn\<close>, where \<open>k1\<close> is not the empty string, becomes the message id
  \<open>k1.k2.....kn\<close>: the keys joined by single dots, starting with \<open>k1\<close> and ending with
  \<open>kn\<close>, with the leaf string as raw content and nothing compiled yet. This holds for every
  file of the directory, so the messages of several files with one locale tag are all in the
  table of that locale.
\<close>

theorem leaves_become_dot_joined_ids:
  assumes "RegisterI18n validTag localeDir (Some fileInfos) ([] :: 't catalog) = Inr cat"
    and "(name, Document doc) \<in> set fileInfos" and "localeFileName name module lang"
    and "leafAt (k # ks) doc s" and "k \<noteq> []"
  shows "lookup cat lang (joinSegments (CHR ''.'') (k # ks)) = Some (newMessage s) \<and>
         (\<exists>back. joinSegments (CHR ''.'') (k # ks) = k @ back) \<and>
         (\<exists>front. joinSegments (CHR ''.'') (k # ks) = front @ last (k # ks))"
proof -
  from assms(1) have load: "loadFiles validTag localeDir fileInfos ([] :: 't catalog) = Inr cat"
    by (auto simp: RegisterI18n_def split: sum.splits option.splits)
  from assms(3) have fl: "fileLang name = Some lang" using fileLang_Some_iff by blast
  from leafAt_flatten[OF assms(4), of "[]"] pathId_join[OF assms(5), of ks]
  have "(joinSegments (CHR ''.'') (k # ks), s) \<in> set (flatten [] doc)" by simp
  from loadFiles_loads[OF load assms(2) fl this]
  have "lookup cat lang (joinSegments (CHR ''.'') (k # ks)) = Some (newMessage s)" .
  moreover have "\<exists>back. joinSegments (CHR ''.'') (k # ks) = k @ back"
    by (simp add: joinSegments_Cons)
  ultimately show ?thesis using joinSegments_ends[of "CHR ''.''" k ks] by blast
qed

theorem loading_fails_exactly_on_triggers_witness:
  "loadFiles (\<lambda>tag. tag = ''en-US'') ''locales''
     [(''order.en-US.toml'', Document (Table [(''A'', Str ''x'')])),
      (''main.go'', ReadFileError),
      (''user.en-US.toml'', Document (Table [(''A'', Str ''y'')]))]
     ([] :: node list catalog) = Inl (AlreadyExist ''A'' ''x'' ''y'') \<and>
   loadTriggers (\<lambda>tag. tag = ''en-US'')
     [(''order.en-US.toml'', Document (Table [(''A'', Str ''x'')])),
      (''main.go'', ReadFileError),
      (''user.en-US.toml'', Document (Table [(''A'', Str ''y'')]))] \<and>
   (\<exists>err. RegisterI18n (\<lambda>tag. tag = ''en-US'') ''locales''
     (Some [(''order.en-US.toml'', Document (Table [(''A'', Str ''x'')])),
      (''main.go'', ReadFileError),
      (''user.en-US.toml'', Document (Table [(''A'', Str ''y'')]))])
     ([] :: node list catalog) = Inl err) \<and>
   \<not> loadTriggers (\<lambda>tag. tag = ''en-US'')
     [(''order.en-US.toml'', Document (Table [(''A'', Str ''x'')])),
      (''main.go'', ReadFileError)] \<and>
   RegisterI18n (\<lambda>tag. tag = ''en-US'') ''locales''
     (Some [(''order.en-US.toml'', Document (Table [(''A'', Str ''x'')])),
      (''main.go'', ReadFileError)])
     ([] :: node list catalog) = Inr [(''en-US'', [(''A'', newMessage ''x'')])]"
proof -
  let ?v = "\<lambda>tag. tag = ''en-US''"
  let ?bad = "[(''order.en-US.toml'', Document (Table [(''A'', Str ''x'')])),
      (''main.go'', ReadFileError),
      (''user.en-US.toml'', Document (Table [(''A'', Str ''y'')]))]"
  let ?good = "[(''order.en-US.toml'', Document (Table [(''A'', Str ''x'')])),
      (''main.go'', ReadFileError)]"
  have bad: "loadFiles ?v ''locales'' ?bad ([] :: node list catalog) = Inl (AlreadyExist ''A'' ''x'' ''y'')"
    by (simp add: loadFiles.simps)
  have good: "loadFiles ?v ''locales'' ?good ([] :: node list catalog) = Inr [(''en-US'', [(''A'', newMessage ''x'')])]"
    by (simp add: loadFiles.simps)
  note t1 = loading_fails_exactly_on_triggers[of ?v "''locales''" "[] :: node list catalog" ?bad]
  note t2 = loading_fails_exactly_on_triggers[of ?v "''locales''" "[] :: node list catalog" ?good]
  have trig: "loadTriggers ?v ?bad"
    using t1[THEN conjunct2, THEN conjunct1] bad by blast
  have fails: "\<exists>err. RegisterI18n ?v ''locales'' (Some ?bad) ([] :: node list catalog) = Inl err"
    using t1[THEN conjunct2, THEN conjunct2, THEN conjunct1] trig by blast
  have "\<not> (\<exists>err. loadFiles ?v ''locales'' ?good ([] :: node list catalog) = Inl err)"
    unfolding good by simp
  then have notrig: "\<not> loadTriggers ?v ?good"
    using t2[THEN conjunct2, THEN conjunct1] by blast
  have "RegisterI18n ?v ''locales'' (Some ?good) ([] :: node list catalog) =
      Inr [(''en-US'', [(''A'', newMessage ''x'')])]"
    using t2[THEN conjunct2, THEN conjunct2, THEN conjunct2, THEN conjunct1] notrig good
    by auto
  with bad trig fails notrig show ?thesis by blast
qed

theorem leaves_become_dot_joined_ids_witness:
  "lookup
     [(''en-US'', [(''Order.NotFound.Description'', newMessage ''Order not found''),
                   (''Greeting'', newMessage ''Hello, {{.Name}}'')])]
     ''en-US'' ''Order.NotFound.Description'' = Some (newMessage ''Order not found'' :: node list Message) \<and>
   lookup
     [(''en-US'', [(''Order.NotFound.Description'', newMessage ''Order not found''),
                   (''Greeting'', newMessage ''Hello, {{.Name}}'')])]
     ''en-US'' ''Greeting'' = Some (newMessage ''Hello, {{.Name}}'' :: node list Message)"
proof -
  let ?v = "\<lambda>tag. tag = ''en-US''"
  let ?d1 = "Table [(''Order'', Table [(''NotFound'', Table [(''Description'', Str ''Order not found'')])])]"
  let ?d2 = "Table [(''Greeting'', Str ''Hello, {{.Name}}'')]"
  let ?dir = "[(''order.en-US.toml'', Document ?d1), (''user.en-US.toml'', Document ?d2)]"
  let ?cat = "[(''en-US'', [(''Order.NotFound.Description'', newMessage ''Order not found''),
                   (''Greeting'', newMessage ''Hello, {{.Name}}'')])] :: node list catalog"
  have r: "RegisterI18n ?v ''locales'' (Some ?dir) ([] :: node list catalog) = Inr ?cat"
    by (simp add: RegisterI18n_def loadFiles.simps)
  have n1: "localeFileName ''order.en-US.toml'' ''order'' ''en-US''"
    by (simp add: localeFileName_def)
  have n2: "localeFileName ''user.en-US.toml'' ''user'' ''en-US''"
    by (simp add: localeFileName_def)
  have l1: "leafAt [''Order'', ''NotFound'', ''Description''] ?d1 ''Order not found''" by simp
  have l2: "leafAt [''Greeting''] ?d2 ''Hello, {{.Name}}''" by simp
  have m1: "(''order.en-US.toml'', Document ?d1) \<in> set ?dir" by simp
  have m2: "(''user.en-US.toml'', Document ?d2) \<in> set ?dir" by simp
  from leaves_become_dot_joined_ids[OF r m1 n1 l1] leaves_become_dot_joined_ids[OF r m2 n2 l2]
  show ?thesis by simp
qed

theorem empty_key_counterexample:
  "RegisterI18n (\<lambda>tag. tag = ''en-US'') ''locales''
     (Some [(''order.en-US.toml'',
             Document (Table [('''', Table [(''b'', Str ''x'')]), (''a'', Table [('''', Str ''y'')])]))])
     ([] :: node list catalog) =
   Inr [(''en-US'', [(''b'', newMessage ''x''), (''a.'', newMessage ''y'')])] \<and>
   leafAt ['''', ''b''] (Table [('''', Table [(''b'', Str ''x'')]), (''a'', Table [('''', Str ''y'')])]) ''x'' \<and>
   joinSegments (CHR ''.'') ['''', ''b''] = ''.b'' \<and>
   leafAt [''a'', ''''] (Table [('''', Table [(''b'', Str ''x'')]), (''a'', Table [('''', Str ''y'')])]) ''y'' \<and>
   joinSegments (CHR ''.'') [''a'', ''''] = ''a.''"
  by (simp add: RegisterI18n_def loadFiles.simps)

lemma list_all2_list_all:
  assumes "list_all2 R xs ys" "list_all P xs" "\<And>x y. R x y \<Longrightarrow> P x \<Longrightarrow> Q y"
  shows "list_all Q ys"
  using assms(1,2)
proof (induction xs ys rule: list_all2_induct)
  case Nil
  then show ?case by simp
next
  case (Cons x xs y ys)
  with assms(3) show ?case by auto
qed

lemma localizer_kept_nonempty:
  assumes "localizer_kept l l'" "list_all (\<lambda>(k, m). Data m \<noteq> []) (snd l)"
  shows "list_all (\<lambda>(k, m). Data m \<noteq> []) (snd l')"
proof -
  from assms(1) have "list_all2 message_kept (snd l) (snd l')" by (simp add: localizer_kept_def)
  then show ?thesis using assms(2)
    by (rule list_all2_list_all) (auto simp: message_kept_def)
qed

lemma catalog_kept_nonempty:
  assumes "catalog_kept cat cat'" "all_nonempty cat"
  shows "all_nonempty cat'"
proof -
  have a: "all_nonempty cat \<longleftrightarrow> list_all (\<lambda>l. list_all (\<lambda>(k, m). Data m \<noteq> []) (snd l)) cat"
    for cat :: "'a catalog"
    unfolding all_nonempty_def by (simp add: case_prod_unfold)
  from assms(1) have "list_all2 localizer_kept cat cat'" by (simp add: catalog_kept_def)
  then show ?thesis using assms(2) unfolding a
    by (rule list_all2_list_all) (rule localizer_kept_nonempty)
qed

lemma newly_loaded_nonempty: "newly_loaded cat \<Longrightarrow> all_nonempty cat"
  unfolding newly_loaded_def all_nonempty_def list_all_iff by fastforce

lemma RegisterI18n_newly_loaded:
  assumes "RegisterI18n validTag localeDir readDir [] = Inr cat"
  shows "newly_loaded cat"
proof -
  from assms obtain fileInfos where "loadFiles validTag localeDir fileInfos [] = Inr cat"
    by (auto simp: RegisterI18n_def split: option.splits sum.splits)
  from loadFiles_newly_loaded[OF this newly_loaded_Nil] show ?thesis .
qed

text \<open>
  \<open>RegisterI18n\<close> succeeds exactly when the validation does in whatever order it visits
  the locales that were loaded.
\<close>

lemma RegisterI18n_order:
  assumes "loadFiles validTag localeDir fileInfos ([] :: 't catalog) = Inr cat"
    and "wf_catalog visited" and "set visited = set cat"
  shows "RegisterI18n validTag localeDir (Some fileInfos) [] = Inr cat \<longleftrightarrow>
         checkLanguageMap visited = None"
proof -
  from loadFiles_newly_loaded[OF assms(1) newly_loaded_Nil] have "wf_catalog cat"
    by (simp add: newly_loaded_def)
  from checkLanguageMap_order[OF this assms(2,3)]
  have "checkLanguageMap visited = None \<longleftrightarrow> checkLanguageMap cat = None" .
  then show ?thesis using assms(1)
    by (cases "checkLanguageMap cat") (simp_all add: RegisterI18n_def)
qed

text \<open>
  C9. From a successful load on, every call of \<open>Translate\<close> that returns leaves the catalog
  with the same locales and the same message ids, every message with the raw content it was
  loaded with, which is not empty, and every compiled template that was present still
  present and the same: a slot changes at most once, from absent to present.
\<close>

theorem catalog_invariants_preserved:
  assumes "RegisterI18n validTag localeDir readDir [] = Inr cat0"
    and "TranslateAll parse execute cat0 calls = Inr (outs, cat)"
    and "Translate parse execute cat lang messageId templateDate = Inr (out, cat')"
  shows "all_nonempty cat0 \<and> catalog_kept cat0 cat \<and> catalog_kept cat cat' \<and> all_nonempty cat'"
proof -
  from RegisterI18n_newly_loaded[OF assms(1)] have n: "newly_loaded cat0" .
  then have ok0: "catalog_ok parse cat0" by (rule newly_loaded_catalog_ok)
  from TranslateAll_steps[OF assms(2) ok0] have k1: "catalog_kept cat0 cat"
    and ok: "catalog_ok parse cat" by simp_all
  from Translate_step[OF assms(3) ok] have k2: "catalog_kept cat cat'" by simp
  from newly_loaded_nonempty[OF n] have e0: "all_nonempty cat0" .
  from catalog_kept_nonempty[OF catalog_kept_trans[OF k1 k2] e0] k1 k2 e0 show ?thesis by simp
qed

text \<open>
  C7. \<open>Translate\<close> ends the process when the catalog has no table for the locale and when
  that table has no entry for the message id. When both are found it returns the raw
  content if that holds no \<^verbatim>\<open>{{\<close>, and otherwise the output of the execution, provided the
  message compiles (or was compiled by an earlier call) and the execution succeeds.
\<close>

theorem Translate_lookup_and_render:
  "(map_of cat lang = None \<longrightarrow>
      Translate parse execute cat lang messageId templateDate = Inl (LocalizerNotExist lang)) \<and>
   (\<forall>localizer. map_of cat lang = Some localizer \<and> map_of localizer messageId = None \<longrightarrow>
      Translate parse execute cat lang messageId templateDate = Inl (MessageIdNotExist messageId lang)) \<and>
   (\<forall>message. lookup cat lang messageId = Some message \<and>
        \<not> strings_Contains (Data message) leftDelim \<longrightarrow>
      Translate parse execute cat lang messageId templateDate = Inr (Data message, cat)) \<and>
   (\<forall>message t out. lookup cat lang messageId = Some message \<and>
        strings_Contains (Data message) leftDelim \<and> \<not> parseOnce message \<and>
        parse (Data message) = Some t \<and> execute t templateDate = Some out \<longrightarrow>
      (\<exists>cat'. Translate parse execute cat lang messageId templateDate = Inr (out, cat'))) \<and>
   (\<forall>message t out. lookup cat lang messageId = Some message \<and>
        strings_Contains (Data message) leftDelim \<and> parseOnce message \<and>
        parsedTemplate message = Some t \<and> execute t templateDate = Some out \<longrightarrow>
      (\<exists>cat'. Translate parse execute cat lang messageId templateDate = Inr (out, cat')))"
  by (auto simp: Translate_def lookup_def parseOnce_Do_def split: option.splits)


lemma strings_Contains_Cons: "strings_Contains s sub \<Longrightarrow> strings_Contains (c # s) sub"
  by simp






theorem Translate_lookup_and_render_witness:
  "Translate gotemplate_Parse gotemplate_Execute
     [(''en-US'', [(''Greeting'', newMessage ''Hello, {{.Name}}''),
                   (''Order.NotFound'', newMessage ''Order not found'')])]
     ''zh-CN'' ''Greeting'' [''Name'' \<mapsto> ''Ana''] = Inl (LocalizerNotExist ''zh-CN'') \<and>
   Translate gotemplate_Parse gotemplate_Execute
     [(''en-US'', [(''Greeting'', newMessage ''Hello, {{.Name}}''),
                   (''Order.NotFound'', newMessage ''Order not found'')])]
     ''en-US'' ''Farewell'' [''Name'' \<mapsto> ''Ana''] = Inl (MessageIdNotExist ''Farewell'' ''en-US'') \<and>
   Translate gotemplate_Parse gotemplate_Execute
     [(''en-US'', [(''Greeting'', newMessage ''Hello, {{.Name}}''),
                   (''Order.NotFound'', newMessage ''Order not found'')])]
     ''en-US'' ''Order.NotFound'' [''Name'' \<mapsto> ''Ana''] =
     Inr (''Order not found'',
          [(''en-US'', [(''Greeting'', newMessage ''Hello, {{.Name}}''),
                   (''Order.NotFound'', newMessage ''Order not found'')])]) \<and>
   (\<exists>cat'. Translate gotemplate_Parse gotemplate_Execute
     [(''en-US'', [(''Greeting'', newMessage ''Hello, {{.Name}}''),
                   (''Order.NotFound'', newMessage ''Order not found'')])]
     ''en-US'' ''Greeting'' [''Name'' \<mapsto> ''Ana''] = Inr (''Hello, Ana'', cat'))"
proof -
  let ?g = "newMessage ''Hello, {{.Name}}'' :: node list Message"
  let ?o = "newMessage ''Order not found'' :: node list Message"
  let ?loc = "[(''Greeting'', ?g), (''Order.NotFound'', ?o)]"
  let ?cat = "[(''en-US'', ?loc)]"
  let ?d = "[''Name'' \<mapsto> ''Ana'']"
  note t = Translate_lookup_and_render[of ?cat _ gotemplate_Parse gotemplate_Execute _ ?d]
  have 1: "Translate gotemplate_Parse gotemplate_Execute ?cat ''zh-CN'' ''Greeting'' ?d =
           Inl (LocalizerNotExist ''zh-CN'')"
    using t[of "''zh-CN''" "''Greeting''", THEN conjunct1] by simp
  have 2: "Translate gotemplate_Parse gotemplate_Execute ?cat ''en-US'' ''Farewell'' ?d =
           Inl (MessageIdNotExist ''Farewell'' ''en-US'')"
    using t[of "''en-US''" "''Farewell''", THEN conjunct2, THEN conjunct1, rule_format, of ?loc]
    by simp
  have 3: "Translate gotemplate_Parse gotemplate_Execute ?cat ''en-US'' ''Order.NotFound'' ?d =
           Inr (''Order not found'', ?cat)"
    using t[of "''en-US''" "''Order.NotFound''", THEN conjunct2, THEN conjunct2, THEN conjunct1,
            rule_format, of ?o]
    by (simp add: lookup_def leftDelim_def)
  have 4: "\<exists>cat'. Translate gotemplate_Parse gotemplate_Execute ?cat ''en-US'' ''Greeting'' ?d =
           Inr (''Hello, Ana'', cat')"
    using t[of "''en-US''" "''Greeting''", THEN conjunct2, THEN conjunct2, THEN conjunct2,
            THEN conjunct1, rule_format, of ?g "[TextNode ''Hello, '', FieldNode ''Name'']" "''Hello, Ana''"]
    by (simp add: lookup_def leftDelim_def gotemplate_Parse_def gotemplate_Execute_def
          textNode_def isAlphaNumeric_def)
  from 1 2 3 4 show ?thesis by (intro conjI)
qed

theorem catalog_invariants_preserved_witness:
  "all_nonempty
     [(''en-US'', [(''Greeting'', newMessage ''Hello, {{.Name}}'' :: node list Message),
                   (''Order.NotFound'', newMessage ''Order not found'')])] \<and>
   catalog_kept
     [(''en-US'', [(''Greeting'', newMessage ''Hello, {{.Name}}''),
                   (''Order.NotFound'', newMessage ''Order not found'')])]
     [(''en-US'', [(''Greeting'',
         \<lparr>Data = ''Hello, {{.Name}}'', parseOnce = True,
          parsedTemplate = Some [TextNode ''Hello, '', FieldNode ''Name'']\<rparr>),
        (''Order.NotFound'', newMessage ''Order not found'')])] \<and>
   all_nonempty
     [(''en-US'', [(''Greeting'',
         \<lparr>Data = ''Hello, {{.Name}}'', parseOnce = True,
          parsedTemplate = Some [TextNode ''Hello, '', FieldNode ''Name'']\<rparr>),
        (''Order.NotFound'', newMessage ''Order not found'')])]"
proof -
  let ?v = "\<lambda>tag. tag = ''en-US''"
  let ?dir = "Some [(''user.en-US.toml'',
     Document (Table [(''Greeting'', Str ''Hello, {{.Name}}''),
                      (''Order'', Table [(''NotFound'', Str ''Order not found'')])]))]"
  let ?g = "\<lparr>Data = ''Hello, {{.Name}}'', parseOnce = True,
          parsedTemplate = Some [TextNode ''Hello, '', FieldNode ''Name'']\<rparr>"
  let ?o = "newMessage ''Order not found'' :: node list Message"
  let ?cat0 = "[(''en-US'', [(''Greeting'', newMessage ''Hello, {{.Name}}''), (''Order.NotFound'', ?o)])]"
  let ?cat1 = "[(''en-US'', [(''Greeting'', ?g), (''Order.NotFound'', ?o)])]"
  let ?d = "[''Name'' \<mapsto> ''Ana'']"
  note ev = Translate_def parseOnce_Do_def gotemplate_Parse_def gotemplate_Execute_def
        leftDelim_def textNode_def isAlphaNumeric_def
  have r: "RegisterI18n ?v ''locales'' ?dir ([] :: node list catalog) = Inr ?cat0"
    by (simp add: RegisterI18n_def loadFiles.simps)
  have a: "TranslateAll gotemplate_Parse gotemplate_Execute ?cat0
             [(''en-US'', ''Order.NotFound'', Map.empty)] = Inr ([''Order not found''], ?cat0)"
    by (simp add: ev)
  have t: "Translate gotemplate_Parse gotemplate_Execute ?cat0 ''en-US'' ''Greeting'' ?d =
           Inr (''Hello, Ana'', ?cat1)"
    by (simp add: ev)
  from catalog_invariants_preserved[OF r a t] show ?thesis by simp
qed

subsection \<open>The compile-once guard under concurrent calls\<close>

lemma lookup_update_message:
  "map_of cat lang = Some localizer \<Longrightarrow>
   lookup (AList.update lang (AList.update messageId m localizer) cat) l k =
     (if l = lang \<and> k = messageId then Some m else lookup cat l k)"
  by (auto simp: lookup_def update_conv')

lemma once_inv_start: "once_inv (start cat calls)"
  by (auto simp: once_inv_def start_def split: prod.splits)

lemma step_once_inv:
  assumes "step parse execute s s'" "once_inv s"
  shows "once_inv s'"
  using assms
proof (cases rule: step.cases)
  case (no_localizer n lang messageId d)
  with assms(2) show ?thesis by (simp add: once_inv_def)
next
  case (no_message n lang messageId d localizer)
  with assms(2) show ?thesis by (simp add: once_inv_def)
next
  case (fast_path n lang messageId d message)
  with assms(2) show ?thesis by (auto simp: once_inv_def nth_list_update)
next
  case (slow_path n lang messageId d message)
  with assms(2) show ?thesis by (auto simp: once_inv_def nth_list_update)
next
  case (once_done n lang messageId d message)
  with assms(2) show ?thesis by (auto simp: once_inv_def nth_list_update)
next
  case (once_enter n lang messageId d message)
  have g: "\<And>n' l i d'. n' < length (goroutines s) \<Longrightarrow>
      (goroutines s)[n := InDo lang messageId d] ! n' = InDo l i d' \<Longrightarrow>
      ((holder s)((lang, messageId) \<mapsto> n)) (l, i) = Some n'"
  proof -
    fix n' l i d'
    assume a: "n' < length (goroutines s)"
      "(goroutines s)[n := InDo lang messageId d] ! n' = InDo l i d'"
    show "((holder s)((lang, messageId) \<mapsto> n)) (l, i) = Some n'"
    proof (cases "n' = n")
      case True
      with a once_enter(3) show ?thesis by simp
    next
      case False
      with a have "goroutines s ! n' = InDo l i d'" by simp
      with assms(2) a(1) have h: "holder s (l, i) = Some n'" by (simp add: once_inv_def)
      with once_enter(7) have "(l, i) \<noteq> (lang, messageId)" by auto
      with h show ?thesis by auto
    qed
  qed
  have h: "\<And>l i n' m. ((holder s)((lang, messageId) \<mapsto> n)) (l, i) = Some n' \<Longrightarrow>
      lookup (iLocalizer s) l i = Some m \<Longrightarrow> \<not> parseOnce m"
  proof -
    fix l i n' m
    assume a: "((holder s)((lang, messageId) \<mapsto> n)) (l, i) = Some n'"
      "lookup (iLocalizer s) l i = Some m"
    show "\<not> parseOnce m"
    proof (cases "(l, i) = (lang, messageId)")
      case True
      with a once_enter(5,6) show ?thesis by simp
    next
      case False
      with a have "holder s (l, i) = Some n'" by (auto split: if_splits)
      with assms(2) a(2) show ?thesis unfolding once_inv_def by blast
    qed
  qed
  from assms(2) have rest: "distinct (compiled s)"
    "\<forall>lang messageId. (lang, messageId) \<in> set (compiled s) \<longrightarrow>
        exited s \<noteq> None \<or>
        (\<exists>message. lookup (iLocalizer s) lang messageId = Some message \<and> parseOnce message)"
    by (simp_all add: once_inv_def)
  show ?thesis
    unfolding once_inv_def once_enter(1) using g h rest by simp
next
  case (parse_failed n lang messageId d message)
  from assms(2) parse_failed(3,4) have hold: "holder s (lang, messageId) = Some n"
    by (simp add: once_inv_def)
  with assms(2) parse_failed(5) have "\<not> parseOnce message" unfolding once_inv_def by blast
  with assms(2) parse_failed(2,5) have "(lang, messageId) \<notin> set (compiled s)"
    unfolding once_inv_def by (metis option.inject)
  with assms(2) show ?thesis
    unfolding once_inv_def parse_failed(1) by simp
next
  case (parse_ok n lang messageId d localizer message t)
  let ?m = "message\<lparr>parsedTemplate := Some t, parseOnce := True\<rparr>"
  let ?cat = "AList.update lang (AList.update messageId ?m localizer) (iLocalizer s)"
  have lk: "\<And>l k. lookup ?cat l k = (if l = lang \<and> k = messageId then Some ?m else lookup (iLocalizer s) l k)"
    using lookup_update_message[OF parse_ok(5)] by simp
  have lm: "lookup (iLocalizer s) lang messageId = Some message"
    using parse_ok(5,6) by (simp add: lookup_def)
  from assms(2) parse_ok(3,4) have hold: "holder s (lang, messageId) = Some n"
    by (simp add: once_inv_def)
  with assms(2) lm have np: "\<not> parseOnce message" unfolding once_inv_def by blast
  with assms(2) parse_ok(2) lm have fresh: "(lang, messageId) \<notin> set (compiled s)"
    unfolding once_inv_def by (metis option.inject)
  have g: "\<And>n' l i d'. n' < length (goroutines s) \<Longrightarrow>
      (goroutines s)[n := AtExecute lang messageId d] ! n' = InDo l i d' \<Longrightarrow>
      ((holder s)((lang, messageId) := None)) (l, i) = Some n'"
  proof -
    fix n' l i d'
    assume a: "n' < length (goroutines s)"
      "(goroutines s)[n := AtExecute lang messageId d] ! n' = InDo l i d'"
    then have ne: "n' \<noteq> n" using parse_ok(3) by (cases "n' = n") auto
    with a have "goroutines s ! n' = InDo l i d'" by simp
    with assms(2) a(1) have h: "holder s (l, i) = Some n'" by (simp add: once_inv_def)
    with hold ne have "(l, i) \<noteq> (lang, messageId)" by auto
    with h show "((holder s)((lang, messageId) := None)) (l, i) = Some n'" by auto
  qed
  have h: "\<And>l i n' m. ((holder s)((lang, messageId) := None)) (l, i) = Some n' \<Longrightarrow>
      lookup ?cat l i = Some m \<Longrightarrow> \<not> parseOnce m"
  proof -
    fix l i n' m
    assume a: "((holder s)((lang, messageId) := None)) (l, i) = Some n'" "lookup ?cat l i = Some m"
    then have ne: "(l, i) \<noteq> (lang, messageId)" by (cases "(l, i) = (lang, messageId)") auto
    with a have "holder s (l, i) = Some n'" "lookup (iLocalizer s) l i = Some m"
      by (auto simp: lk split: if_splits)
    with assms(2) show "\<not> parseOnce m" unfolding once_inv_def by blast
  qed
  have c: "\<And>l i. (l, i) \<in> set (compiled s @ [(lang, messageId)]) \<Longrightarrow>
      (\<exists>m. lookup ?cat l i = Some m \<and> parseOnce m)"
  proof -
    fix l i assume a: "(l, i) \<in> set (compiled s @ [(lang, messageId)])"
    show "\<exists>m. lookup ?cat l i = Some m \<and> parseOnce m"
    proof (cases "(l, i) = (lang, messageId)")
      case True
      then show ?thesis by (simp add: lk)
    next
      case False
      with a have "(l, i) \<in> set (compiled s)" by auto
      with assms(2) parse_ok(2) obtain m where "lookup (iLocalizer s) l i = Some m" "parseOnce m"
        unfolding once_inv_def by blast
      with False show ?thesis by (auto simp: lk)
    qed
  qed
  from assms(2) fresh have d: "distinct (compiled s @ [(lang, messageId)])"
    by (simp add: once_inv_def)
  show ?thesis
    unfolding once_inv_def parse_ok(1) using g h c d by simp
next
  case (nil_template n lang messageId d message)
  with assms(2) show ?thesis by (simp add: once_inv_def)
next
  case (execute_failed n lang messageId d message t)
  with assms(2) show ?thesis by (simp add: once_inv_def)
next
  case (execute_ok n lang messageId d message t out)
  with assms(2) show ?thesis by (auto simp: once_inv_def nth_list_update)
qed


lemma slotOf_goroutines [simp]: "slotOf (s\<lparr>goroutines := g\<rparr>) l i = slotOf s l i"
  unfolding slotOf_def by (auto split: option.splits)

lemma slotOf_exited:
  "exited s = None \<Longrightarrow> \<forall>a b c. e \<noteq> ParseFailed a b c \<Longrightarrow>
   slotOf (s\<lparr>exited := Some e\<rparr>) l i = slotOf s l i"
  unfolding slotOf_def by (auto split: option.splits)

lemma step_slot:
  assumes "step parse execute s s'" "once_inv s"
  shows "(compiled s' = compiled s \<and>
          (\<forall>l i. slotOf s' l i = slotOf s l i \<or>
                 (slotOf s l i = Uncompiled \<and> slotOf s' l i = Compiling))) \<or>
         (\<exists>l i. compiled s' = compiled s @ [(l, i)] \<and> slotOf s l i = Compiling \<and>
                (slotOf s' l i = Compiled \<or> slotOf s' l i = CompileFailed) \<and>
                (\<forall>l2 i2. (l2, i2) \<noteq> (l, i) \<longrightarrow> slotOf s' l2 i2 = slotOf s l2 i2))"
  using assms
proof (cases rule: step.cases)
  case (no_localizer n lang messageId d)
  then show ?thesis by (simp add: slotOf_exited)
next
  case (no_message n lang messageId d localizer)
  then show ?thesis by (simp add: slotOf_exited)
next
  case (fast_path n lang messageId d message)
  then show ?thesis by simp
next
  case (slow_path n lang messageId d message)
  then show ?thesis by simp
next
  case (once_done n lang messageId d message)
  then show ?thesis by simp
next
  case (once_enter n lang messageId d message)
  have "\<And>l i. slotOf s' l i = slotOf s l i \<or> (slotOf s l i = Uncompiled \<and> slotOf s' l i = Compiling)"
  proof -
    fix l i
    show "slotOf s' l i = slotOf s l i \<or> (slotOf s l i = Uncompiled \<and> slotOf s' l i = Compiling)"
    proof (cases "(l, i) = (lang, messageId)")
      case True
      with once_enter show ?thesis by (simp add: slotOf_def)
    next
      case False
      then have "((holder s)((lang, messageId) \<mapsto> n)) (l, i) = holder s (l, i)" by auto
      then have "slotOf s' l i = slotOf s l i"
        unfolding once_enter(1) slotOf_def by (auto split: option.splits)
      then show ?thesis by simp
    qed
  qed
  with once_enter(1) show ?thesis by simp
next
  case (parse_failed n lang messageId d message)
  from assms(2) parse_failed(3,4) have hold: "holder s (lang, messageId) = Some n"
    by (simp add: once_inv_def)
  with assms(2) parse_failed(5) have np: "\<not> parseOnce message" unfolding once_inv_def by blast
  have 1: "slotOf s lang messageId = Compiling"
    using parse_failed(2,5) hold np by (simp add: slotOf_def)
  have 2: "slotOf s' lang messageId = CompileFailed"
    unfolding parse_failed(1) by (simp add: slotOf_def)
  have 3: "\<And>l2 i2. (l2, i2) \<noteq> (lang, messageId) \<Longrightarrow> slotOf s' l2 i2 = slotOf s l2 i2"
    unfolding parse_failed(1) using parse_failed(2) by (auto simp: slotOf_def)
  from 1 2 3 parse_failed(1) show ?thesis by auto
next
  case (parse_ok n lang messageId d localizer message t)
  let ?m = "message\<lparr>parsedTemplate := Some t, parseOnce := True\<rparr>"
  let ?cat = "AList.update lang (AList.update messageId ?m localizer) (iLocalizer s)"
  have lk: "\<And>l k. lookup ?cat l k = (if l = lang \<and> k = messageId then Some ?m else lookup (iLocalizer s) l k)"
    using lookup_update_message[OF parse_ok(5)] by simp
  have lm: "lookup (iLocalizer s) lang messageId = Some message"
    using parse_ok(5,6) by (simp add: lookup_def)
  from assms(2) parse_ok(3,4) have hold: "holder s (lang, messageId) = Some n"
    by (simp add: once_inv_def)
  with assms(2) lm have np: "\<not> parseOnce message" unfolding once_inv_def by blast
  have 1: "slotOf s lang messageId = Compiling"
    using parse_ok(2) lm hold np by (simp add: slotOf_def)
  have 2: "slotOf s' lang messageId = Compiled"
    unfolding parse_ok(1) using parse_ok(2) by (simp add: slotOf_def lk)
  have 3: "\<And>l2 i2. (l2, i2) \<noteq> (lang, messageId) \<Longrightarrow> slotOf s' l2 i2 = slotOf s l2 i2"
  proof -
    fix l2 i2 assume ne: "(l2, i2) \<noteq> (lang, messageId)"
    then have "((holder s)((lang, messageId) := None)) (l2, i2) = holder s (l2, i2)" by auto
    moreover from ne have "lookup ?cat l2 i2 = lookup (iLocalizer s) l2 i2" by (auto simp: lk)
    ultimately show "slotOf s' l2 i2 = slotOf s l2 i2"
      unfolding parse_ok(1) slotOf_def using parse_ok(2) by (auto split: option.splits)
  qed
  from 1 2 3 parse_ok(1) show ?thesis by auto
next
  case (nil_template n lang messageId d message)
  then show ?thesis by (simp add: slotOf_exited)
next
  case (execute_failed n lang messageId d message t)
  then show ?thesis by (simp add: slotOf_exited)
next
  case (execute_ok n lang messageId d message t out)
  then show ?thesis by simp
qed


lemma step_compiled_inv:
  assumes "step parse execute s s'" "once_inv s" "compiled_inv s"
  shows "compiled_inv s'"
  using step_slot[OF assms(1,2)]
proof
  assume a: "compiled s' = compiled s \<and>
          (\<forall>l i. slotOf s' l i = slotOf s l i \<or>
                 (slotOf s l i = Uncompiled \<and> slotOf s' l i = Compiling))"
  show ?thesis unfolding compiled_inv_def
  proof (intro allI)
    fix l i
    from a have "slotOf s' l i = slotOf s l i \<or> (slotOf s l i = Uncompiled \<and> slotOf s' l i = Compiling)"
      by blast
    moreover from assms(3) have "(l, i) \<in> set (compiled s) \<longleftrightarrow>
            slotOf s l i = Compiled \<or> slotOf s l i = CompileFailed"
      unfolding compiled_inv_def by blast
    moreover from a have "compiled s' = compiled s" by blast
    ultimately show "(l, i) \<in> set (compiled s') \<longleftrightarrow>
            slotOf s' l i = Compiled \<or> slotOf s' l i = CompileFailed"
      by (elim disjE conjE) simp_all
  qed
next
  assume "\<exists>l i. compiled s' = compiled s @ [(l, i)] \<and> slotOf s l i = Compiling \<and>
                (slotOf s' l i = Compiled \<or> slotOf s' l i = CompileFailed) \<and>
                (\<forall>l2 i2. (l2, i2) \<noteq> (l, i) \<longrightarrow> slotOf s' l2 i2 = slotOf s l2 i2)"
  then obtain l i where c: "compiled s' = compiled s @ [(l, i)]"
    and t: "slotOf s' l i = Compiled \<or> slotOf s' l i = CompileFailed"
    and o: "\<And>l2 i2. (l2, i2) \<noteq> (l, i) \<Longrightarrow> slotOf s' l2 i2 = slotOf s l2 i2" by blast
  show ?thesis unfolding compiled_inv_def
  proof (intro allI)
    fix l2 i2
    show "(l2, i2) \<in> set (compiled s') \<longleftrightarrow>
            slotOf s' l2 i2 = Compiled \<or> slotOf s' l2 i2 = CompileFailed"
    proof (cases "(l2, i2) = (l, i)")
      case True
      with c t show ?thesis by auto
    next
      case False
      from assms(3) have "(l2, i2) \<in> set (compiled s) \<longleftrightarrow>
            slotOf s l2 i2 = Compiled \<or> slotOf s l2 i2 = CompileFailed"
        unfolding compiled_inv_def by blast
      with False c o[OF False] show ?thesis by auto
    qed
  qed
qed

lemma start_slot:
  assumes "newly_loaded cat"
  shows "slotOf (start cat calls) l i = Uncompiled"
proof (cases "lookup cat l i")
  case None
  then show ?thesis by (simp add: slotOf_def start_def)
next
  case (Some m)
  from newly_loaded_catalog_ok[OF assms, of "\<lambda>_. None"] Some
  have "slot_ok (\<lambda>_. None) m"
    using catalog_ok_lookup[of "\<lambda>_. None" cat l _ i m]
    by (auto simp: lookup_def split: option.splits)
  then have "\<not> parseOnce m" by (auto simp: slot_ok_def split: if_splits)
  with Some show ?thesis by (simp add: slotOf_def start_def)
qed

lemma start_compiled_inv: "newly_loaded cat \<Longrightarrow> compiled_inv (start cat calls)"
  unfolding compiled_inv_def using start_slot[of cat calls] by (simp add: start_def)

text \<open>
  Both invariants hold in every state that a run reaches from a newly loaded catalog.
\<close>

lemma steps_inv:
  assumes "rtranclp (step parse execute) (start cat calls) s" "newly_loaded cat"
  shows "once_inv s \<and> compiled_inv s"
  using assms(1)
proof (induction rule: rtranclp_induct)
  case base
  show ?case using once_inv_start start_compiled_inv[OF assms(2)] by blast
next
  case (step y z)
  then show ?case using step_once_inv step_compiled_inv by blast
qed






text \<open>
  A goroutine at \<^verbatim>\<open>parseOnce.Do\<close> of a message whose slot is \<open>Uncompiled\<close> is not blocked:
  it can enter the function.
\<close>

lemma once_enter_enabled:
  assumes "exited s = None" "n < length (goroutines s)" "goroutines s ! n = AtDo l i d"
    and "lookup (iLocalizer s) l i \<noteq> None" and "slotOf s l i = Uncompiled"
  shows "step parse execute s
           (s\<lparr>holder := (holder s)((l, i) \<mapsto> n),
              goroutines := (goroutines s)[n := InDo l i d]\<rparr>)"
proof -
  from assms(4) obtain message where m: "lookup (iLocalizer s) l i = Some message" by blast
  with assms(1,5) have "\<not> parseOnce message" "holder s (l, i) = None"
    by (auto simp: slotOf_def split: if_splits)
  with assms(1-3) m show ?thesis by (intro step.once_enter)
qed

text \<open>
  The steps are those of the function \<open>Translate\<close>: a goroutine that runs alone reaches
  the result of the function, with the catalog as the function leaves it, or ends the
  process with the error of the function.
\<close>

lemma Translate_run:
  fixes cat :: "'t catalog" and d :: 'd
  shows "case Translate parse execute cat lang messageId d of
           Inl e \<Rightarrow> \<exists>s'. rtranclp (step parse execute) (start cat [(lang, messageId, d)]) s' \<and>
                        exited s' = Some e
         | Inr (out, cat') \<Rightarrow>
             \<exists>s'. rtranclp (step parse execute) (start cat [(lang, messageId, d)]) s' \<and>
                  exited s' = None \<and> goroutines s' = [Returned out] \<and> iLocalizer s' = cat'"
proof -
  let ?P = "step parse execute"
  let ?s0 = "\<lparr>iLocalizer = cat, holder = (\<lambda>_. None), goroutines = [Call lang messageId d],
              compiled = [], exited = None\<rparr> :: ('t, 'd) process"
  have s0: "start cat [(lang, messageId, d)] = ?s0" by (simp add: start_def)
  show ?thesis
  proof (cases "map_of cat lang")
    case None
    have "?P ?s0 (?s0\<lparr>exited := Some (LocalizerNotExist lang)\<rparr>)"
      using step.no_localizer[of ?s0 0 lang messageId d parse execute] None by simp
    then have "rtranclp ?P ?s0 (?s0\<lparr>exited := Some (LocalizerNotExist lang)\<rparr>)" by blast
    then have "\<exists>s'. rtranclp ?P ?s0 s' \<and> exited s' = Some (LocalizerNotExist lang)"
      by (intro exI conjI, assumption) simp
    with None show ?thesis unfolding s0 by (simp add: Translate_def)
  next
    case (Some localizer)
    note loc = Some
    show ?thesis
    proof (cases "map_of localizer messageId")
      case None
      have "?P ?s0 (?s0\<lparr>exited := Some (MessageIdNotExist messageId lang)\<rparr>)"
        using step.no_message[of ?s0 0 lang messageId d localizer parse execute] None loc by simp
      then have "rtranclp ?P ?s0 (?s0\<lparr>exited := Some (MessageIdNotExist messageId lang)\<rparr>)" by blast
      then have "\<exists>s'. rtranclp ?P ?s0 s' \<and> exited s' = Some (MessageIdNotExist messageId lang)"
        by (intro exI conjI, assumption) simp
      with None loc show ?thesis unfolding s0 by (simp add: Translate_def)
    next
      case (Some message)
      note msg = Some
      from loc msg have lk: "lookup cat lang messageId = Some message" by (simp add: lookup_def)
      show ?thesis
      proof (cases "strings_Contains (Data message) leftDelim")
        case False
        let ?s1 = "?s0\<lparr>goroutines := [Returned (Data message)]\<rparr>"
        have "?P ?s0 ?s1"
          using step.fast_path[of ?s0 0 lang messageId d message parse execute] lk False by simp
        then have "rtranclp ?P ?s0 ?s1" by blast
        then have "\<exists>s'. rtranclp ?P ?s0 s' \<and> exited s' = None \<and>
                        goroutines s' = [Returned (Data message)] \<and> iLocalizer s' = cat"
          by (intro exI conjI, assumption) simp_all
        with False loc msg show ?thesis unfolding s0 by (simp add: Translate_def)
      next
        case True
        let ?s1 = "?s0\<lparr>goroutines := [AtDo lang messageId d]\<rparr>"
        have 1: "?P ?s0 ?s1"
          using step.slow_path[of ?s0 0 lang messageId d message parse execute] lk True by simp
        show ?thesis
        proof (cases "parseOnce message")
          case True
          note once = True
          let ?s2 = "?s0\<lparr>goroutines := [AtExecute lang messageId d]\<rparr>"
          have 2: "?P ?s1 ?s2"
            using step.once_done[of ?s1 0 lang messageId d message parse execute] lk once by simp
          from 1 2 have r2: "rtranclp ?P ?s0 ?s2" by simp
          have same: "AList.update lang (AList.update messageId message localizer) cat = cat"
            using loc msg by (simp add: update_triv)
          show ?thesis
          proof (cases "parsedTemplate message")
            case None
            let ?s3 = "?s2\<lparr>exited := Some NilTemplate\<rparr>"
            have "?P ?s2 ?s3"
              using step.nil_template[of ?s2 0 lang messageId d message parse execute] lk None by simp
            with r2 have "rtranclp ?P ?s0 ?s3" by simp
            then have "\<exists>s'. rtranclp ?P ?s0 s' \<and> exited s' = Some NilTemplate"
              by (intro exI conjI, assumption) simp
            with None once \<open>strings_Contains (Data message) leftDelim\<close> loc msg show ?thesis
              unfolding s0 by (simp add: Translate_def parseOnce_Do_def)
          next
            case (Some t)
            note tmpl = Some
            show ?thesis
            proof (cases "execute t d")
              case None
              let ?e = "ExecuteFailed messageId lang (Data message)"
              let ?s3 = "?s2\<lparr>exited := Some ?e\<rparr>"
              have "?P ?s2 ?s3"
                using step.execute_failed[of ?s2 0 lang messageId d message t execute parse]
                  lk tmpl None by simp
              with r2 have "rtranclp ?P ?s0 ?s3" by simp
              then have "\<exists>s'. rtranclp ?P ?s0 s' \<and> exited s' = Some ?e"
                by (intro exI conjI, assumption) simp
              with None tmpl once \<open>strings_Contains (Data message) leftDelim\<close> loc msg show ?thesis
                unfolding s0 by (simp add: Translate_def parseOnce_Do_def)
            next
              case (Some out)
              let ?s3 = "?s0\<lparr>goroutines := [Returned out]\<rparr>"
              have "?P ?s2 ?s3"
                using step.execute_ok[of ?s2 0 lang messageId d message t execute out parse]
                  lk tmpl Some by simp
              with r2 have "rtranclp ?P ?s0 ?s3" by simp
              then have "\<exists>s'. rtranclp ?P ?s0 s' \<and> exited s' = None \<and>
                        goroutines s' = [Returned out] \<and> iLocalizer s' = cat"
                by (intro exI conjI, assumption) simp_all
              with Some tmpl once same \<open>strings_Contains (Data message) leftDelim\<close> loc msg
              show ?thesis unfolding s0 by (simp add: Translate_def parseOnce_Do_def)
            qed
          qed
        next
          case False
          note once = False
          let ?h = "(\<lambda>_. None)((lang, messageId) \<mapsto> (0 :: nat))"
          let ?s2 = "?s0\<lparr>holder := ?h, goroutines := [InDo lang messageId d]\<rparr>"
          have 2: "?P ?s1 ?s2"
            using step.once_enter[of ?s1 0 lang messageId d message parse execute] lk once by simp
          from 1 2 have r2: "rtranclp ?P ?s0 ?s2" by simp
          have lk2: "lookup (iLocalizer ?s2) lang messageId = Some message" using lk by simp
          show ?thesis
          proof (cases "parse (Data message)")
            case None
            let ?e = "ParseFailed messageId lang (Data message)"
            let ?s3 = "?s2\<lparr>compiled := [(lang, messageId)], exited := Some ?e\<rparr>"
            have "?P ?s2 ?s3"
              using step.parse_failed[of ?s2 0 lang messageId d message parse execute] lk None by simp
            with r2 have "rtranclp ?P ?s0 ?s3" by simp
            then have "\<exists>s'. rtranclp ?P ?s0 s' \<and> exited s' = Some ?e"
              by (intro exI conjI, assumption) simp
            with None once \<open>strings_Contains (Data message) leftDelim\<close> loc msg show ?thesis
              unfolding s0 by (simp add: Translate_def parseOnce_Do_def)
          next
            case (Some t)
            note tmpl = Some
            let ?m = "message\<lparr>parsedTemplate := Some t, parseOnce := True\<rparr>"
            let ?cat = "AList.update lang (AList.update messageId ?m localizer) cat"
            let ?s3 = "\<lparr>iLocalizer = ?cat, holder = (\<lambda>_. None),
                        goroutines = [AtExecute lang messageId d],
                        compiled = [(lang, messageId)], exited = None\<rparr> :: ('t, 'd) process"
            have 3: "?P ?s2 ?s3"
              using step.parse_ok[of ?s2 0 lang messageId d localizer message parse t execute]
                loc msg tmpl by simp
            with r2 have r3: "rtranclp ?P ?s0 ?s3" by simp
            have lk3: "lookup ?cat lang messageId = Some ?m"
              using lookup_update_message[OF loc] by simp
            show ?thesis
            proof (cases "execute t d")
              case None
              let ?e = "ExecuteFailed messageId lang (Data message)"
              let ?s4 = "?s3\<lparr>exited := Some ?e\<rparr>"
              have "?P ?s3 ?s4"
                using step.execute_failed[of ?s3 0 lang messageId d ?m t execute parse]
                  lk3 None by simp
              with r3 have "rtranclp ?P ?s0 ?s4" by simp
              then have "\<exists>s'. rtranclp ?P ?s0 s' \<and> exited s' = Some ?e"
                by (intro exI conjI, assumption) simp
              with None tmpl once \<open>strings_Contains (Data message) leftDelim\<close> loc msg show ?thesis
                unfolding s0 by (simp add: Translate_def parseOnce_Do_def)
            next
              case (Some out)
              let ?s4 = "?s3\<lparr>goroutines := [Returned out]\<rparr>"
              have "?P ?s3 ?s4"
                using step.execute_ok[of ?s3 0 lang messageId d ?m t execute out parse]
                  lk3 Some by simp
              with r3 have "rtranclp ?P ?s0 ?s4" by simp
              then have "\<exists>s'. rtranclp ?P ?s0 s' \<and> exited s' = None \<and>
                        goroutines s' = [Returned out] \<and> iLocalizer s' = ?cat"
                by (intro exI conjI, assumption) simp_all
              with Some tmpl once \<open>strings_Contains (Data message) leftDelim\<close> loc msg
              show ?thesis unfolding s0 by (simp add: Translate_def parseOnce_Do_def)
            qed
          qed
        qed
      qed
    qed
  qed
qed

text \<open>
  Termination, the invariant of the calls, and progress.
\<close>

lemma sum_list_stepsLeft_update:
  "n < length gs \<Longrightarrow> stepsLeft g < stepsLeft (gs ! n) \<Longrightarrow>
   sum_list (map stepsLeft (gs[n := g])) < sum_list (map stepsLeft gs)"
proof (induction gs arbitrary: n)
  case Nil
  then show ?case by simp
next
  case (Cons a gs)
  then show ?case by (cases n) auto
qed

lemma step_remaining:
  assumes "step parse execute s s'"
  shows "remaining s' < remaining s"
  using assms
proof (cases rule: step.cases)
  case (fast_path n lang messageId d message)
  then show ?thesis using sum_list_stepsLeft_update[of n "goroutines s" "Returned (Data message)"]
    by (simp add: remaining_def)
next
  case (slow_path n lang messageId d message)
  then show ?thesis using sum_list_stepsLeft_update[of n "goroutines s" "AtDo lang messageId d"]
    by (simp add: remaining_def)
next
  case (once_done n lang messageId d message)
  then show ?thesis using sum_list_stepsLeft_update[of n "goroutines s" "AtExecute lang messageId d"]
    by (simp add: remaining_def)
next
  case (once_enter n lang messageId d message)
  then show ?thesis using sum_list_stepsLeft_update[of n "goroutines s" "InDo lang messageId d"]
    by (simp add: remaining_def)
next
  case (parse_ok n lang messageId d localizer message t)
  then show ?thesis using sum_list_stepsLeft_update[of n "goroutines s" "AtExecute lang messageId d"]
    by (simp add: remaining_def)
next
  case (execute_ok n lang messageId d message t out)
  then show ?thesis using sum_list_stepsLeft_update[of n "goroutines s" "Returned out"]
    by (simp add: remaining_def)
qed (simp_all add: remaining_def)

lemma runs_end:
  "\<exists>f. rtranclp (step parse execute) s f \<and> (\<forall>t. \<not> step parse execute f t)"
proof (induction "remaining s" arbitrary: s rule: less_induct)
  case less
  show ?case
  proof (cases "\<exists>t. step parse execute s t")
    case False
    then show ?thesis by blast
  next
    case True
    then obtain t where t: "step parse execute s t" by blast
    from less[OF step_remaining[OF t]] obtain f where
      "rtranclp (step parse execute) t f" "\<forall>u. \<not> step parse execute f u" by blast
    with t show ?thesis by (meson converse_rtranclp_into_rtranclp)
  qed
qed


lemma newly_loaded_lookup:
  assumes "newly_loaded cat" and "lookup cat lang messageId = Some message"
  shows "\<not> parseOnce message \<and> parsedTemplate message = None \<and> slot_ok parse message"
proof -
  from assms(2) obtain mp where mp: "map_of cat lang = Some mp" "map_of mp messageId = Some message"
    by (auto simp: lookup_def split: option.splits)
  then have "(lang, mp) \<in> set cat" "(messageId, message) \<in> set mp"
    by (auto dest: map_of_SomeD)
  with assms(1) have "\<not> parseOnce message \<and> parsedTemplate message = None"
    unfolding newly_loaded_def list_all_iff by fastforce
  then show ?thesis by (simp add: slot_ok_def)
qed

lemma run_inv_start:
  assumes "newly_loaded cat"
  shows "run_inv parse execute cat calls (start cat calls)"
proof -
  have b: "rel_option (\<lambda>loaded message. Data message = Data loaded \<and> slot_ok parse message)
          (lookup cat lang messageId) (lookup cat lang messageId)" for lang messageId
    using newly_loaded_lookup[OF assms, of lang messageId]
    by (cases "lookup cat lang messageId") simp_all
  have c: "goroutine_inv parse execute cat cat (calls ! n)
             (map (\<lambda>(lang, messageId, d). Call lang messageId d) calls ! n)"
    if "n < length calls" for n
    using that by (cases "calls ! n") simp
  show ?thesis unfolding run_inv_def start_def using b c by simp
qed

lemma run_inv_exit:
  assumes "run_inv parse execute cat calls s" and "\<forall>a b c. e \<noteq> ParseFailed a b c"
  shows "run_inv parse execute cat calls (s\<lparr>exited := Some e\<rparr>)"
  using assms unfolding run_inv_def by simp

lemma run_inv_move:
  assumes inv: "run_inv parse execute cat calls s" and n: "n < length calls"
    and was: "\<forall>lang messageId d. goroutines s ! n \<noteq> InDo lang messageId d"
    and g: "goroutine_inv parse execute cat (iLocalizer s) (calls ! n) g"
  shows "run_inv parse execute cat calls (s\<lparr>goroutines := (goroutines s)[n := g]\<rparr>)"
proof -
  from inv have len: "length (goroutines s) = length calls"
    and c: "\<And>m. m < length calls \<Longrightarrow>
              goroutine_inv parse execute cat (iLocalizer s) (calls ! m) (goroutines s ! m)"
    and h: "\<And>lang messageId m. holder s (lang, messageId) = Some m \<Longrightarrow>
              m < length calls \<and> (\<exists>d. goroutines s ! m = InDo lang messageId d)"
    unfolding run_inv_def by blast+
  have c': "goroutine_inv parse execute cat (iLocalizer s) (calls ! m) ((goroutines s)[n := g] ! m)"
    if "m < length calls" for m
    using that c[OF that] g n len by (cases "m = n") simp_all
  have h': "m < length calls \<and> (\<exists>d. (goroutines s)[n := g] ! m = InDo lang messageId d)"
    if "holder s (lang, messageId) = Some m" for lang messageId m
  proof -
    from h[OF that] was have "m \<noteq> n" by auto
    with h[OF that] show ?thesis by simp
  qed
  show ?thesis using inv c' h' unfolding run_inv_def by simp
qed

lemma run_inv_lookup:
  assumes "run_inv parse execute cat calls s"
  shows "lookup (iLocalizer s) lang messageId = Some message \<Longrightarrow>
         \<exists>loaded. lookup cat lang messageId = Some loaded \<and> Data message = Data loaded \<and>
                  slot_ok parse message"
    and "lookup cat lang messageId = Some loaded \<Longrightarrow>
         \<exists>message. lookup (iLocalizer s) lang messageId = Some message \<and>
                   Data message = Data loaded \<and> slot_ok parse message"
proof -
  from assms have r: "rel_option (\<lambda>loaded message. Data message = Data loaded \<and> slot_ok parse message)
          (lookup cat lang messageId) (lookup (iLocalizer s) lang messageId)"
    unfolding run_inv_def by blast
  show "lookup (iLocalizer s) lang messageId = Some message \<Longrightarrow>
         \<exists>loaded. lookup cat lang messageId = Some loaded \<and> Data message = Data loaded \<and>
                  slot_ok parse message"
    using r by (cases "lookup cat lang messageId") auto
  show "lookup cat lang messageId = Some loaded \<Longrightarrow>
         \<exists>message. lookup (iLocalizer s) lang messageId = Some message \<and>
                   Data message = Data loaded \<and> slot_ok parse message"
    using r by (cases "lookup (iLocalizer s) lang messageId") auto
qed

lemma goroutine_inv_mono:
  assumes "goroutine_inv parse execute cat now c g"
    and "\<And>lang messageId. fired now lang messageId \<Longrightarrow> fired now' lang messageId"
  shows "goroutine_inv parse execute cat now' c g"
  using assms by (cases g) (auto split: prod.splits)

lemma Translate_fast:
  assumes "lookup cat lang messageId = Some loaded"
    and "\<not> strings_Contains (Data loaded) leftDelim"
  shows "Translate parse execute cat lang messageId d = Inr (Data loaded, cat)"
  using assms by (auto simp: Translate_def lookup_def split: option.splits)

lemma Translate_slow:
  assumes "lookup cat lang messageId = Some loaded" and "\<not> parseOnce loaded"
    and "strings_Contains (Data loaded) leftDelim"
    and "parse (Data loaded) = Some t" and "execute t d = Some out"
  shows "\<exists>cat'. Translate parse execute cat lang messageId d = Inr (out, cat')"
  using assms by (auto simp: Translate_def lookup_def parseOnce_Do_def split: option.splits)

lemma step_run_inv:
  assumes st: "step parse execute s s'" and once: "once_inv s" and new: "newly_loaded cat"
    and inv: "run_inv parse execute cat calls s"
  shows "run_inv parse execute cat calls s'"
proof -
  from inv have len: "length (goroutines s) = length calls"
    and c: "\<And>m. m < length calls \<Longrightarrow>
              goroutine_inv parse execute cat (iLocalizer s) (calls ! m) (goroutines s ! m)"
    and h: "\<And>lang messageId m. holder s (lang, messageId) = Some m \<Longrightarrow>
              m < length calls \<and> (\<exists>d. goroutines s ! m = InDo lang messageId d)"
    unfolding run_inv_def by blast+
  from st show ?thesis
  proof (cases rule: step.cases)
    case (no_localizer n lang messageId d)
    then show ?thesis using run_inv_exit[OF inv] by simp
  next
    case (no_message n lang messageId d localizer)
    then show ?thesis using run_inv_exit[OF inv] by simp
  next
    case (nil_template n lang messageId d message)
    then show ?thesis using run_inv_exit[OF inv] by simp
  next
    case (execute_failed n lang messageId d message t)
    then show ?thesis using run_inv_exit[OF inv] by simp
  next
    case (fast_path n lang messageId d message)
    from fast_path(3) len have n: "n < length calls" by simp
    from c[OF n] fast_path(4) have call: "calls ! n = (lang, messageId, d)" by simp
    from run_inv_lookup(1)[OF inv fast_path(5)] obtain loaded where
      l: "lookup cat lang messageId = Some loaded" "Data message = Data loaded" by blast
    with fast_path(6) have "\<not> slowPath cat lang messageId" by (simp add: slowPath_def)
    moreover from Translate_fast[OF l(1), of parse execute d] l(2) fast_path(6)
    have "Translate parse execute cat lang messageId d = Inr (Data message, cat)" by simp
    ultimately have "goroutine_inv parse execute cat (iLocalizer s) (calls ! n) (Returned (Data message))"
      by (simp add: call)
    from run_inv_move[OF inv n _ this] fast_path(1,4) show ?thesis by simp
  next
    case (slow_path n lang messageId d message)
    from slow_path(3) len have n: "n < length calls" by simp
    from c[OF n] slow_path(4) have call: "calls ! n = (lang, messageId, d)" by simp
    from run_inv_lookup(1)[OF inv slow_path(5)] obtain loaded where
      l: "lookup cat lang messageId = Some loaded" "Data message = Data loaded" by blast
    with slow_path(6) have "slowPath cat lang messageId" by (auto simp: slowPath_def)
    then have "goroutine_inv parse execute cat (iLocalizer s) (calls ! n) (AtDo lang messageId d)"
      by (simp add: call)
    from run_inv_move[OF inv n _ this] slow_path(1,4) show ?thesis by simp
  next
    case (once_done n lang messageId d message)
    from once_done(3) len have n: "n < length calls" by simp
    from c[OF n] once_done(4) have call: "calls ! n = (lang, messageId, d)"
      and sp: "slowPath cat lang messageId" by simp_all
    from once_done(5,6) have "fired (iLocalizer s) lang messageId" by (auto simp: fired_def)
    with sp have "goroutine_inv parse execute cat (iLocalizer s) (calls ! n) (AtExecute lang messageId d)"
      by (simp add: call)
    from run_inv_move[OF inv n _ this] once_done(1,4) show ?thesis by simp
  next
    case (execute_ok n lang messageId d message t out)
    from execute_ok(3) len have n: "n < length calls" by simp
    from c[OF n] execute_ok(4) have call: "calls ! n = (lang, messageId, d)"
      and sp: "slowPath cat lang messageId" and f: "fired (iLocalizer s) lang messageId"
      by simp_all
    from f execute_ok(5) have po: "parseOnce message" by (auto simp: fired_def)
    from run_inv_lookup(1)[OF inv execute_ok(5)] obtain loaded where
      l: "lookup cat lang messageId = Some loaded" "Data message = Data loaded"
      and ok: "slot_ok parse message" by blast
    from ok po execute_ok(6) l(2) have p: "parse (Data loaded) = Some t" by (simp add: slot_ok_def)
    from sp l have sc: "strings_Contains (Data loaded) leftDelim" by (simp add: slowPath_def)
    from newly_loaded_lookup[OF new l(1)] have "\<not> parseOnce loaded" by simp
    from Translate_slow[where parse = parse and execute = execute and t = t and d = d and out = out,
        OF l(1) this sc p execute_ok(7)] f
    have "goroutine_inv parse execute cat (iLocalizer s) (calls ! n) (Returned out)"
      by (simp add: call)
    from run_inv_move[OF inv n _ this] execute_ok(1,4) show ?thesis by simp
  next
    case (once_enter n lang messageId d message)
    from once_enter(3) len have n: "n < length calls" by simp
    from c[OF n] once_enter(4) have "goroutine_inv parse execute cat (iLocalizer s) (calls ! n)
        (InDo lang messageId d)" by simp
    from run_inv_move[OF inv n _ this] once_enter(4)
    have i1: "run_inv parse execute cat calls (s\<lparr>goroutines := (goroutines s)[n := InDo lang messageId d]\<rparr>)"
      by simp
    have h': "m < length calls \<and> (\<exists>d'. (goroutines s)[n := InDo lang messageId d] ! m = InDo l i d')"
      if "((holder s)((lang, messageId) \<mapsto> n)) (l, i) = Some m" for l i m
    proof (cases "(l, i) = (lang, messageId)")
      case True
      with that have "m = n" by simp
      with True n len show ?thesis by simp
    next
      case False
      with that have hs: "holder s (l, i) = Some m" by auto
      from h[OF hs] once_enter(4) have "m \<noteq> n" by auto
      with h[OF hs] show ?thesis by simp
    qed
    show ?thesis unfolding once_enter(1) using i1 h' unfolding run_inv_def by simp
  next
    case (parse_failed n lang messageId d message)
    from once parse_failed(3,4) have "holder s (lang, messageId) = Some n"
      unfolding once_inv_def by blast
    with once parse_failed(5) have "\<not> parseOnce message" unfolding once_inv_def by blast
    with parse_failed(5) have "\<not> fired (iLocalizer s) lang messageId" by (simp add: fired_def)
    then show ?thesis unfolding parse_failed(1) using inv unfolding run_inv_def by simp
  next
    case (parse_ok n lang messageId d localizer message t)
    let ?m = "message\<lparr>parsedTemplate := Some t, parseOnce := True\<rparr>"
    let ?cat = "AList.update lang (AList.update messageId ?m localizer) (iLocalizer s)"
    have lk: "\<And>l k. lookup ?cat l k = (if l = lang \<and> k = messageId then Some ?m else lookup (iLocalizer s) l k)"
      using lookup_update_message[OF parse_ok(5)] by simp
    have lm: "lookup (iLocalizer s) lang messageId = Some message"
      using parse_ok(5,6) by (simp add: lookup_def)
    from parse_ok(3) len have n: "n < length calls" by simp
    have mono: "fired (iLocalizer s) l i \<Longrightarrow> fired ?cat l i" for l i
      by (auto simp: fired_def lk)
    have a': "length ((goroutines s)[n := AtExecute lang messageId d]) = length calls"
      using len by simp
    have b': "rel_option (\<lambda>loaded message. Data message = Data loaded \<and> slot_ok parse message)
          (lookup cat l i) (lookup ?cat l i)" for l i
    proof (cases "l = lang \<and> i = messageId")
      case True
      from run_inv_lookup(1)[OF inv lm] obtain loaded where
        "lookup cat lang messageId = Some loaded" "Data message = Data loaded" by blast
      with True parse_ok(7) show ?thesis by (simp add: lk slot_ok_def)
    next
      case False
      from inv have "rel_option (\<lambda>loaded message. Data message = Data loaded \<and> slot_ok parse message)
          (lookup cat l i) (lookup (iLocalizer s) l i)" unfolding run_inv_def by blast
      moreover from False have "lookup ?cat l i = lookup (iLocalizer s) l i" by (auto simp: lk)
      ultimately show ?thesis by simp
    qed
    have c': "goroutine_inv parse execute cat ?cat (calls ! m)
                ((goroutines s)[n := AtExecute lang messageId d] ! m)"
      if m: "m < length calls" for m
    proof (cases "m = n")
      case True
      from c[OF n] parse_ok(4) have "calls ! n = (lang, messageId, d)"
        "slowPath cat lang messageId" by simp_all
      moreover have "fired ?cat lang messageId" by (simp add: fired_def lk)
      ultimately show ?thesis using True n len by simp
    next
      case False
      with goroutine_inv_mono[OF c[OF m], of ?cat] mono show ?thesis by simp
    qed
    have d': "m < length calls \<and>
          (\<exists>d'. (goroutines s)[n := AtExecute lang messageId d] ! m = InDo l i d')"
      if "((holder s)((lang, messageId) := None)) (l, i) = Some m" for l i m
    proof -
      from that have ne: "(l, i) \<noteq> (lang, messageId)" and hs: "holder s (l, i) = Some m"
        by (auto split: if_splits)
      from h[OF hs] parse_ok(4) ne have "m \<noteq> n" by auto
      with h[OF hs] show ?thesis by simp
    qed
    show ?thesis unfolding parse_ok(1) run_inv_def using a' b' c' d' parse_ok(2) by simp
  qed
qed

lemma steps_run_inv:
  assumes "rtranclp (step parse execute) (start cat calls) s" and "newly_loaded cat"
  shows "run_inv parse execute cat calls s \<and> once_inv s \<and> compiled_inv s"
  using assms(1)
proof (induction rule: rtranclp_induct)
  case base
  show ?case using run_inv_start[OF assms(2)] once_inv_start start_compiled_inv[OF assms(2)]
    by blast
next
  case (step y z)
  then show ?case using step_run_inv[OF _ _ assms(2)] step_once_inv step_compiled_inv by blast
qed

lemma InDo_enabled:
  assumes "exited s = None" and "m < length (goroutines s)"
    and "goroutines s ! m = InDo lang messageId d"
    and "lookup (iLocalizer s) lang messageId = Some message"
  shows "\<exists>t. step parse execute s t"
proof (cases "parse (Data message)")
  case None
  from step.parse_failed[where parse = parse and execute = execute, OF assms None] show ?thesis by blast
next
  case (Some t)
  from assms(4) obtain localizer where "map_of (iLocalizer s) lang = Some localizer"
    "map_of localizer messageId = Some message"
    by (auto simp: lookup_def split: option.splits)
  from step.parse_ok[where parse = parse and execute = execute, OF assms(1-3) this Some] show ?thesis by blast
qed

lemma step_enabled:
  assumes inv: "run_inv parse execute cat calls s" and ex: "exited s = None"
    and n: "n < length calls" and nr: "\<forall>out. goroutines s ! n \<noteq> Returned out"
  shows "\<exists>t. step parse execute s t"
proof -
  from inv have len: "length (goroutines s) = length calls"
    and c: "goroutine_inv parse execute cat (iLocalizer s) (calls ! n) (goroutines s ! n)"
    and h: "\<And>lang messageId m. holder s (lang, messageId) = Some m \<Longrightarrow>
              m < length calls \<and> (\<exists>d. goroutines s ! m = InDo lang messageId d)"
    unfolding run_inv_def using n by blast+
  from n len have n': "n < length (goroutines s)" by simp
  have there: "\<exists>message. lookup (iLocalizer s) lang messageId = Some message"
    if "slowPath cat lang messageId" for lang messageId
    using that run_inv_lookup(2)[OF inv] unfolding slowPath_def by blast
  show ?thesis
  proof (cases "goroutines s ! n")
    case (Call lang messageId d)
    show ?thesis
    proof (cases "map_of (iLocalizer s) lang")
      case None
      from step.no_localizer[where parse = parse and execute = execute, OF ex n' Call None] show ?thesis by blast
    next
      case (Some localizer)
      show ?thesis
      proof (cases "map_of localizer messageId")
        case None
        from step.no_message[where parse = parse and execute = execute, OF ex n' Call Some None] show ?thesis by blast
      next
        case m: (Some message)
        with Some have l: "lookup (iLocalizer s) lang messageId = Some message"
          by (simp add: lookup_def)
        show ?thesis
        proof (cases "strings_Contains (Data message) leftDelim")
          case True
          from step.slow_path[where parse = parse and execute = execute, OF ex n' Call l True] show ?thesis by blast
        next
          case False
          from step.fast_path[where parse = parse and execute = execute, OF ex n' Call l False] show ?thesis by blast
        qed
      qed
    qed
  next
    case (AtDo lang messageId d)
    with c have "slowPath cat lang messageId" by simp
    from there[OF this] obtain message where
      l: "lookup (iLocalizer s) lang messageId = Some message" by blast
    show ?thesis
    proof (cases "parseOnce message")
      case True
      from step.once_done[where parse = parse and execute = execute, OF ex n' AtDo l True] show ?thesis by blast
    next
      case False
      show ?thesis
      proof (cases "holder s (lang, messageId)")
        case None
        from step.once_enter[where parse = parse and execute = execute, OF ex n' AtDo l False None] show ?thesis by blast
      next
        case (Some m)
        from h[OF Some] len obtain d' where "m < length (goroutines s)"
          "goroutines s ! m = InDo lang messageId d'" by auto
        from InDo_enabled[OF ex this l] show ?thesis .
      qed
    qed
  next
    case (InDo lang messageId d)
    with c have "slowPath cat lang messageId" by simp
    from there[OF this] obtain message where
      l: "lookup (iLocalizer s) lang messageId = Some message" by blast
    from InDo_enabled[OF ex n' InDo l] show ?thesis .
  next
    case (AtExecute lang messageId d)
    with c have "slowPath cat lang messageId" by simp
    from there[OF this] obtain message where
      l: "lookup (iLocalizer s) lang messageId = Some message" by blast
    show ?thesis
    proof (cases "parsedTemplate message")
      case None
      from step.nil_template[where parse = parse and execute = execute, OF ex n' AtExecute l None] show ?thesis by blast
    next
      case (Some t)
      show ?thesis
      proof (cases "execute t d")
        case None
        from step.execute_failed[where parse = parse and execute = execute, OF ex n' AtExecute l Some None] show ?thesis by blast
      next
        case out: (Some out)
        from step.execute_ok[where parse = parse and execute = execute, OF ex n' AtExecute l Some out] show ?thesis by blast
      qed
    qed
  next
    case (Returned out)
    with nr show ?thesis by simp
  qed
qed


lemma Returned_output:
  assumes inv: "run_inv parse execute cat calls s"
    and n: "n < length calls" and call: "calls ! n = (lang, messageId, d)"
    and ret: "goroutines s ! n = Returned out"
  shows "\<exists>cat'. Translate parse execute cat lang messageId d = Inr (out, cat')"
proof -
  from inv n have "goroutine_inv parse execute cat (iLocalizer s) (calls ! n) (goroutines s ! n)"
    unfolding run_inv_def by blast
  with call ret show ?thesis by simp
qed







text \<open>
  C8. Once a call \<open>Translate(lang, messageId, data)\<close> has returned a string, every later call
  with the same arguments returns the same string, whatever other calls ran before, between
  or after, and it leaves the catalog as it found it. And when any number of goroutines
  call \<open>Translate\<close> at once, interleaved in any order: a call that has returned has returned
  what the same call returns when it runs alone and first on the loaded catalog, so any two
  calls with the same arguments that have returned have returned the same string; every
  run goes on to a state where nothing moves, and if the process has not exited there,
  every call has returned.
\<close>

theorem Translate_deterministic:
  fixes cat0 :: "'t catalog" and execute :: "'t \<Rightarrow> 'd \<Rightarrow> string option"
  assumes "RegisterI18n validTag localeDir readDir [] = Inr cat0"
  shows "(\<forall>earlier outs0 cat lang messageId templateDate out cat1 later outs1 cat2.
            TranslateAll parse execute cat0 earlier = Inr (outs0, cat) \<and>
            Translate parse execute cat lang messageId templateDate = Inr (out, cat1) \<and>
            TranslateAll parse execute cat1 later = Inr (outs1, cat2) \<longrightarrow>
            Translate parse execute cat2 lang messageId templateDate = Inr (out, cat2)) \<and>
         (\<forall>calls s. rtranclp (step parse execute) (start cat0 calls) s \<longrightarrow>
            (\<forall>n lang messageId d out.
               n < length calls \<and> calls ! n = (lang, messageId, d) \<and>
               goroutines s ! n = Returned out \<longrightarrow>
               (\<exists>cat'. Translate parse execute cat0 lang messageId d = Inr (out, cat'))) \<and>
            (\<forall>n n' out out'.
               n < length calls \<and> n' < length calls \<and> calls ! n = calls ! n' \<and>
               goroutines s ! n = Returned out \<and> goroutines s ! n' = Returned out' \<longrightarrow>
               out = out') \<and>
            (\<exists>f. rtranclp (step parse execute) s f \<and> (\<forall>t. \<not> step parse execute f t) \<and>
               (exited f = None \<longrightarrow>
                  (\<forall>n < length calls. \<exists>out. goroutines f ! n = Returned out))))"
proof (intro conjI allI impI)
  fix earlier outs0 cat lang messageId templateDate out cat1 later outs1 cat2
  assume a: "TranslateAll parse execute cat0 earlier = Inr (outs0, cat) \<and>
            Translate parse execute cat lang messageId templateDate = Inr (out, cat1) \<and>
            TranslateAll parse execute cat1 later = Inr (outs1, cat2)"
  from RegisterI18n_newly_loaded[OF assms(1)] have "catalog_ok parse cat0"
    by (rule newly_loaded_catalog_ok)
  from TranslateAll_steps[OF a[THEN conjunct1] this] have ok: "catalog_ok parse cat" by simp
  from Translate_step[OF a[THEN conjunct2, THEN conjunct1] ok] have ok1: "catalog_ok parse cat1"
    by simp
  from TranslateAll_steps[OF a[THEN conjunct2, THEN conjunct2] ok1]
  have k: "catalog_kept cat1 cat2" and ok2: "catalog_ok parse cat2" by simp_all
  from Translate_again[OF a[THEN conjunct2, THEN conjunct1] ok k ok2]
  show "Translate parse execute cat2 lang messageId templateDate = Inr (out, cat2)" .
next
  fix calls :: "(string \<times> string \<times> 'd) list" and s n lang messageId d out
  assume run: "rtranclp (step parse execute) (start cat0 calls) s"
    and a: "n < length calls \<and> calls ! n = (lang, messageId, d) \<and> goroutines s ! n = Returned out"
  from steps_run_inv[OF run RegisterI18n_newly_loaded[OF assms(1)]]
  have r: "run_inv parse execute cat0 calls s" by simp
  from a Returned_output[OF r, of n lang messageId d out]
  show "\<exists>cat'. Translate parse execute cat0 lang messageId d = Inr (out, cat')" by blast
next
  fix calls :: "(string \<times> string \<times> 'd) list" and s n n' out out'
  assume run: "rtranclp (step parse execute) (start cat0 calls) s"
    and a: "n < length calls \<and> n' < length calls \<and> calls ! n = calls ! n' \<and>
               goroutines s ! n = Returned out \<and> goroutines s ! n' = Returned out'"
  from steps_run_inv[OF run RegisterI18n_newly_loaded[OF assms(1)]]
  have r: "run_inv parse execute cat0 calls s" by simp
  obtain lang messageId d where c: "calls ! n = (lang, messageId, d)" by (cases "calls ! n")
  from a c Returned_output[OF r, of n lang messageId d out]
  obtain cat' where 1: "Translate parse execute cat0 lang messageId d = Inr (out, cat')" by blast
  from a c Returned_output[OF r, of n' lang messageId d out']
  obtain cat'' where 2: "Translate parse execute cat0 lang messageId d = Inr (out', cat'')" by auto
  from 1 2 show "out = out'" by simp
next
  fix calls :: "(string \<times> string \<times> 'd) list" and s
  assume run: "rtranclp (step parse execute) (start cat0 calls) s"
  from runs_end[of parse execute s] obtain f where
    f: "rtranclp (step parse execute) s f" "\<forall>t. \<not> step parse execute f t" by blast
  from run f(1) have "rtranclp (step parse execute) (start cat0 calls) f" by simp
  from steps_run_inv[OF this RegisterI18n_newly_loaded[OF assms(1)]]
  have rf: "run_inv parse execute cat0 calls f" by simp
  have "exited f = None \<longrightarrow> (\<forall>n < length calls. \<exists>out. goroutines f ! n = Returned out)"
    using step_enabled[OF rf] f(2) by blast
  with f have "rtranclp (step parse execute) s f \<and> (\<forall>t. \<not> step parse execute f t) \<and>
               (exited f = None \<longrightarrow>
                  (\<forall>n < length calls. \<exists>out. goroutines f ! n = Returned out))" by simp
  then show "\<exists>f. rtranclp (step parse execute) s f \<and> (\<forall>t. \<not> step parse execute f t) \<and>
               (exited f = None \<longrightarrow>
                  (\<forall>n < length calls. \<exists>out. goroutines f ! n = Returned out))" by (rule exI)
qed

theorem Translate_deterministic_witness:
  "Translate gotemplate_Parse gotemplate_Execute
     [(''en-US'', [(''Greeting'',
         \<lparr>Data = ''Hello, {{.Name}}'', parseOnce = True,
          parsedTemplate = Some [TextNode ''Hello, '', FieldNode ''Name'']\<rparr>),
        (''Bye'',
         \<lparr>Data = ''Bye, {{.Name}}'', parseOnce = True,
          parsedTemplate = Some [TextNode ''Bye, '', FieldNode ''Name'']\<rparr>),
        (''Order.NotFound'', newMessage ''Order not found'')])]
     ''en-US'' ''Greeting'' [''Name'' \<mapsto> ''Ana''] =
   Inr (''Hello, Ana'',
     [(''en-US'', [(''Greeting'',
         \<lparr>Data = ''Hello, {{.Name}}'', parseOnce = True,
          parsedTemplate = Some [TextNode ''Hello, '', FieldNode ''Name'']\<rparr>),
        (''Bye'',
         \<lparr>Data = ''Bye, {{.Name}}'', parseOnce = True,
          parsedTemplate = Some [TextNode ''Bye, '', FieldNode ''Name'']\<rparr>),
        (''Order.NotFound'', newMessage ''Order not found'')])]) \<and>
   (\<exists>cat'. Translate gotemplate_Parse gotemplate_Execute
      [(''en-US'', [(''Greeting'', newMessage ''Hello, {{.Name}}''),
                    (''Bye'', newMessage ''Bye, {{.Name}}''),
                    (''Order.NotFound'', newMessage ''Order not found'')])]
      ''en-US'' ''Greeting'' [''Name'' \<mapsto> ''Ana''] = Inr (''Hello, Ana'', cat'))"
proof -
  let ?v = "\<lambda>tag. tag = ''en-US''"
  let ?dir = "Some [(''user.en-US.toml'',
     Document (Table [(''Greeting'', Str ''Hello, {{.Name}}''), (''Bye'', Str ''Bye, {{.Name}}''),
                      (''Order'', Table [(''NotFound'', Str ''Order not found'')])]))]"
  let ?t = "[TextNode ''Hello, '', FieldNode ''Name'']"
  let ?n = "newMessage ''Hello, {{.Name}}'' :: node list Message"
  let ?g = "\<lparr>Data = ''Hello, {{.Name}}'', parseOnce = True, parsedTemplate = Some ?t\<rparr>"
  let ?b = "\<lparr>Data = ''Bye, {{.Name}}'', parseOnce = True,
          parsedTemplate = Some [TextNode ''Bye, '', FieldNode ''Name'']\<rparr>"
  let ?o = "newMessage ''Order not found'' :: node list Message"
  let ?l0 = "[(''Greeting'', ?n), (''Bye'', newMessage ''Bye, {{.Name}}''), (''Order.NotFound'', ?o)]"
  let ?cat0 = "[(''en-US'', ?l0)]"
  let ?cat1 = "[(''en-US'', [(''Greeting'', ?g),
                 (''Bye'', newMessage ''Bye, {{.Name}}''), (''Order.NotFound'', ?o)])]"
  let ?cat2 = "[(''en-US'', [(''Greeting'', ?g), (''Bye'', ?b), (''Order.NotFound'', ?o)])]"
  let ?d = "[''Name'' \<mapsto> ''Ana'']"
  let ?calls = "[(''en-US'', ''Greeting'', ?d), (''en-US'', ''Greeting'', ?d)]"
  let ?P = "step gotemplate_Parse gotemplate_Execute"
  let ?h = "(\<lambda>_. None)((''en-US'', ''Greeting'') \<mapsto> (1 :: nat))"
  let ?s0 = "start ?cat0 ?calls"
  let ?s1 = "\<lparr>iLocalizer = ?cat0, holder = (\<lambda>_. None),
       goroutines = [AtDo ''en-US'' ''Greeting'' ?d, Call ''en-US'' ''Greeting'' ?d],
       compiled = [], exited = None\<rparr>"
  let ?s2 = "\<lparr>iLocalizer = ?cat0, holder = (\<lambda>_. None),
       goroutines = [AtDo ''en-US'' ''Greeting'' ?d, AtDo ''en-US'' ''Greeting'' ?d],
       compiled = [], exited = None\<rparr>"
  let ?s3 = "\<lparr>iLocalizer = ?cat0, holder = ?h,
       goroutines = [AtDo ''en-US'' ''Greeting'' ?d, InDo ''en-US'' ''Greeting'' ?d],
       compiled = [], exited = None\<rparr>"
  let ?s4 = "\<lparr>iLocalizer = ?cat1, holder = (\<lambda>_. None),
       goroutines = [AtDo ''en-US'' ''Greeting'' ?d, AtExecute ''en-US'' ''Greeting'' ?d],
       compiled = [(''en-US'', ''Greeting'')], exited = None\<rparr>"
  let ?s5 = "\<lparr>iLocalizer = ?cat1, holder = (\<lambda>_. None),
       goroutines = [AtExecute ''en-US'' ''Greeting'' ?d, AtExecute ''en-US'' ''Greeting'' ?d],
       compiled = [(''en-US'', ''Greeting'')], exited = None\<rparr>"
  let ?s6 = "\<lparr>iLocalizer = ?cat1, holder = (\<lambda>_. None),
       goroutines = [Returned ''Hello, Ana'', AtExecute ''en-US'' ''Greeting'' ?d],
       compiled = [(''en-US'', ''Greeting'')], exited = None\<rparr>"
  let ?s7 = "\<lparr>iLocalizer = ?cat1, holder = (\<lambda>_. None),
       goroutines = [Returned ''Hello, Ana'', Returned ''Hello, Ana''],
       compiled = [(''en-US'', ''Greeting'')], exited = None\<rparr>
      :: (node list, string \<rightharpoonup> string) process"
  note ev = Translate_def parseOnce_Do_def gotemplate_Parse_def gotemplate_Execute_def
        leftDelim_def textNode_def isAlphaNumeric_def
  have r: "RegisterI18n ?v ''locales'' ?dir ([] :: node list catalog) = Inr ?cat0"
    by (simp add: RegisterI18n_def loadFiles.simps)
  have a: "TranslateAll gotemplate_Parse gotemplate_Execute ?cat0
             [(''en-US'', ''Order.NotFound'', Map.empty)] = Inr ([''Order not found''], ?cat0)"
    by (simp add: ev)
  have t: "Translate gotemplate_Parse gotemplate_Execute ?cat0 ''en-US'' ''Greeting'' ?d =
           Inr (''Hello, Ana'', ?cat1)"
    by (simp add: ev)
  have b: "TranslateAll gotemplate_Parse gotemplate_Execute ?cat1
             [(''en-US'', ''Bye'', [''Name'' \<mapsto> ''Bo'']), (''en-US'', ''Order.NotFound'', ?d)] =
           Inr ([''Bye, Bo'', ''Order not found''], ?cat2)"
    by (simp add: ev)
  have 1: "?P ?s0 ?s1"
    using step.slow_path[of ?s0 0 "''en-US''" "''Greeting''" ?d ?n gotemplate_Parse gotemplate_Execute]
    by (simp add: start_def ev lookup_def)
  have 2: "?P ?s1 ?s2"
    using step.slow_path[of ?s1 1 "''en-US''" "''Greeting''" ?d ?n gotemplate_Parse gotemplate_Execute]
    by (simp add: ev lookup_def)
  have 3: "?P ?s2 ?s3"
    using step.once_enter[of ?s2 1 "''en-US''" "''Greeting''" ?d ?n gotemplate_Parse gotemplate_Execute]
    by (simp add: ev lookup_def)
  have 4: "?P ?s3 ?s4"
    using step.parse_ok[of ?s3 1 "''en-US''" "''Greeting''" ?d ?l0 ?n
        gotemplate_Parse ?t gotemplate_Execute]
    by (simp add: ev lookup_def)
  have 5: "?P ?s4 ?s5"
    using step.once_done[of ?s4 0 "''en-US''" "''Greeting''" ?d ?g gotemplate_Parse gotemplate_Execute]
    by (simp add: ev lookup_def)
  have 6: "?P ?s5 ?s6"
    using step.execute_ok[of ?s5 0 "''en-US''" "''Greeting''" ?d ?g ?t gotemplate_Execute
        "''Hello, Ana''" gotemplate_Parse]
    by (simp add: ev lookup_def)
  have 7: "?P ?s6 ?s7"
    using step.execute_ok[of ?s6 1 "''en-US''" "''Greeting''" ?d ?g ?t gotemplate_Execute
        "''Hello, Ana''" gotemplate_Parse]
    by (simp add: ev lookup_def)
  from 1 2 3 4 5 6 7 have run: "rtranclp ?P ?s0 ?s7" by simp
  note d = Translate_deterministic[where parse = gotemplate_Parse and execute = gotemplate_Execute,
      OF r]
  from d[THEN conjunct1, rule_format, of "[(''en-US'', ''Order.NotFound'', Map.empty)]"
      "[''Order not found'']" ?cat0 "''en-US''" "''Greeting''" ?d "''Hello, Ana''" ?cat1
      "[(''en-US'', ''Bye'', [''Name'' \<mapsto> ''Bo'']), (''en-US'', ''Order.NotFound'', ?d)]"
      "[''Bye, Bo'', ''Order not found'']" ?cat2] a t b
  have again: "Translate gotemplate_Parse gotemplate_Execute ?cat2 ''en-US'' ''Greeting'' ?d =
               Inr (''Hello, Ana'', ?cat2)" by blast
  from d[THEN conjunct2, rule_format, OF run, THEN conjunct1, rule_format,
      of 1 "''en-US''" "''Greeting''" ?d "''Hello, Ana''"]
  have alone: "\<exists>cat'. Translate gotemplate_Parse gotemplate_Execute ?cat0 ''en-US'' ''Greeting'' ?d =
                 Inr (''Hello, Ana'', cat')" by simp
  from again alone show ?thesis by (rule conjI)
qed

end
